theory Spec2Isabelle
  imports Main
begin

section \<open>Text and slicing\<close>

text \<open>
  The buffer of \<^verbatim>\<open>CodeLine\<close> is a JavaScript string, a sequence of code units. Nothing in
  the engine looks inside a code unit, so the text is a list over any type \<open>'u\<close> of units.
  Offsets handed in by callers are JavaScript numbers; the development covers the integers.

  \<^verbatim>\<open>String.prototype.slice(start, end)\<close>: a negative index counts from the end of the
  string, every index is then clamped into \<open>[0, length]\<close>, and the result is empty when the
  clamped start is not before the clamped end. It never raises.
\<close>

definition relIndex :: "int \<Rightarrow> nat \<Rightarrow> nat" where
  "relIndex i len = (if i < 0 then nat (max (int len + i) 0) else min (nat i) len)"

definition slice :: "'u list \<Rightarrow> int \<Rightarrow> int \<Rightarrow> 'u list" where
  "slice s b e =
     (let from = relIndex b (length s); to = relIndex e (length s)
      in take (to - from) (drop from s))"

definition sliceFrom :: "'u list \<Rightarrow> int \<Rightarrow> 'u list" where
  "sliceFrom s b = drop (relIndex b (length s)) s"

section \<open>Syntax nodes\<close>

text \<open>
  A node of the parser's tree, as far as the engine reads it: an identity, the span
  \<open>[startIndex, endIndex)\<close> and the children. The parser's indices are unsigned.
\<close>

datatype snode = SNode (nodeId: nat) (startIndex: nat) (endIndex: nat) (children: "snode list")

section \<open>Segments\<close>

text \<open>
  One entry of \<^verbatim>\<open>result\<close> in \<^verbatim>\<open>renderTree\<close>, which becomes one \<^verbatim>\<open>span\<close> of the code
  area: the class names, the text of its text node and the \<^verbatim>\<open>data-offset\<close> attribute.
\<close>

record 'u segment =
  names :: "string list"
  textContent :: "'u list"
  offset :: int

text \<open>
  The loop of \<^verbatim>\<open>renderTree\<close> over the tagged nodes, with its three variables
  \<^verbatim>\<open>source\<close>, \<^verbatim>\<open>index\<close> and \<^verbatim>\<open>result\<close>, and the push of the trailing text after it.
\<close>

fun renderLoop ::
  "(snode \<times> string list) list \<Rightarrow> 'u list \<Rightarrow> int \<Rightarrow> 'u segment list \<Rightarrow> 'u segment list" where
  "renderLoop [] source index result =
     (if source \<noteq> [] then result @ [\<lparr>names = [], textContent = source, offset = index\<rparr>]
      else result)"
| "renderLoop ((node, nms) # rest) source index result =
     (let pre = slice source 0 (int (startIndex node) - index);
          text = slice source (int (startIndex node) - index) (int (endIndex node) - index);
          source' = sliceFrom source (int (endIndex node) - index);
          result1 = (if pre \<noteq> [] then result @ [\<lparr>names = [], textContent = pre, offset = index\<rparr>]
                     else result);
          index' = int (endIndex node);
          result2 = (if text \<noteq> []
                     then result1 @ [\<lparr>names = nms, textContent = text, offset = int (startIndex node)\<rparr>]
                     else result1)
      in renderLoop rest source' index' result2)"

definition buildSegments :: "'u list \<Rightarrow> (snode \<times> string list) list \<Rightarrow> 'u segment list" where
  "buildSegments source highlight = renderLoop highlight source 0 []"

text \<open>
  The hypotheses of the tiling property. Every span is well formed and ends inside the
  text; the spans do not overlap and come in ascending order: each ends at or before the
  start of every later one.
\<close>

definition spansWithin :: "nat \<Rightarrow> (snode \<times> 'a) list \<Rightarrow> bool" where
  "spansWithin len highlight =
     list_all (\<lambda>(n, _). startIndex n \<le> endIndex n \<and> endIndex n \<le> len) highlight"

definition ascendingDisjoint :: "(snode \<times> 'a) list \<Rightarrow> bool" where
  "ascendingDisjoint highlight =
     sorted_wrt (\<lambda>a b. endIndex (fst a) \<le> startIndex (fst b)) highlight"

text \<open>Two spans overlap when each starts before the other ends.\<close>

definition overlaps :: "snode \<Rightarrow> snode \<Rightarrow> bool" where
  "overlaps a b = (startIndex a < endIndex b \<and> startIndex b < endIndex a)"

text \<open>\<open>tiles segs lo hi\<close>: the segments cover \<open>[lo, hi)\<close> one after the other.\<close>

fun tiles :: "'u segment list \<Rightarrow> int \<Rightarrow> int \<Rightarrow> bool" where
  "tiles [] lo hi = (lo = hi)"
| "tiles (s # ss) lo hi = (offset s = lo \<and> tiles ss (lo + int (length (textContent s))) hi)"

text \<open>The spans form a chain from \<open>lo\<close> to \<open>hi\<close>.\<close>

fun chain :: "int \<Rightarrow> (snode \<times> 'a) list \<Rightarrow> int \<Rightarrow> bool" where
  "chain lo [] hi = (lo \<le> hi)"
| "chain lo ((n, _) # rest) hi =
     (lo \<le> int (startIndex n) \<and> startIndex n \<le> endIndex n \<and> chain (int (endIndex n)) rest hi)"

section \<open>Looking up a syntax node\<close>

text \<open>
  The parser's tree cursor, as \<^verbatim>\<open>findSyntaxNode\<close> drives it: the current node and, for
  every ancestor, the siblings still to the right. The tree of the datatype has no parent
  links, so \<^verbatim>\<open>cursor.currentNode.nextSibling\<close> and \<^verbatim>\<open>cursor.currentNode.parent\<close> are read
  off the cursor's position. A move that is not possible leaves the cursor where it is.
\<close>

record treeCursor =
  currentNode :: snode
  ancestors :: "(snode \<times> snode list) list"

definition walk :: "snode \<Rightarrow> treeCursor" where
  "walk root = \<lparr>currentNode = root, ancestors = []\<rparr>"

definition gotoFirstChild :: "treeCursor \<Rightarrow> treeCursor" where
  "gotoFirstChild c =
     (case children (currentNode c) of
        [] \<Rightarrow> c
      | k # ks \<Rightarrow> \<lparr>currentNode = k, ancestors = (currentNode c, ks) # ancestors c\<rparr>)"

definition nextSibling :: "treeCursor \<Rightarrow> snode option" where
  "nextSibling c = (case ancestors c of (p, r # rs) # up \<Rightarrow> Some r | _ \<Rightarrow> None)"

definition gotoNextSibling :: "treeCursor \<Rightarrow> treeCursor" where
  "gotoNextSibling c =
     (case ancestors c of
        (p, r # rs) # up \<Rightarrow> \<lparr>currentNode = r, ancestors = (p, rs) # up\<rparr>
      | _ \<Rightarrow> c)"

definition parent :: "treeCursor \<Rightarrow> snode option" where
  "parent c = (case ancestors c of (p, rs) # up \<Rightarrow> Some p | [] \<Rightarrow> None)"

definition gotoParent :: "treeCursor \<Rightarrow> treeCursor" where
  "gotoParent c =
     (case ancestors c of
        (p, rs) # up \<Rightarrow> \<lparr>currentNode = p, ancestors = up\<rparr>
      | [] \<Rightarrow> c)"

text \<open>The measure of the search: what is left of the tree to the right of the cursor.\<close>

fun weight :: "snode \<Rightarrow> nat" where
  "weight (SNode i s e ks) = 2 + sum_list (map weight ks)"

definition pending :: "(snode \<times> snode list) list \<Rightarrow> nat" where
  "pending up = sum_list (map (\<lambda>(p, rs). 1 + sum_list (map weight rs)) up)"

text \<open>
  The two local functions \<^verbatim>\<open>find\<close> and \<^verbatim>\<open>findNext\<close> of \<^verbatim>\<open>findSyntaxNode\<close>. The captured
  variable \<^verbatim>\<open>lastNode\<close> is threaded through. A node that does not start before \<^verbatim>\<open>index\<close>
  ends the whole search.
\<close>

function findRec :: "int \<Rightarrow> treeCursor \<Rightarrow> snode option \<Rightarrow> snode option"
  and findNext :: "int \<Rightarrow> treeCursor \<Rightarrow> snode option \<Rightarrow> snode option" where
  "findRec index cursor lastNode =
     (if int (startIndex (currentNode cursor)) < index then
        (if children (currentNode cursor) \<noteq> []
         then findRec index (gotoFirstChild cursor) (Some (currentNode cursor))
         else findNext index cursor (Some (currentNode cursor)))
      else lastNode)"
| "findNext index cursor lastNode =
     (if nextSibling cursor \<noteq> None then findRec index (gotoNextSibling cursor) lastNode
      else if parent cursor \<noteq> None then findNext index (gotoParent cursor) lastNode
      else lastNode)"
  by pat_completeness auto

termination
proof (relation "measure (\<lambda>x. case x of
          Inl (i, c, l) \<Rightarrow> weight (currentNode c) + pending (ancestors c)
        | Inr (i, c, l) \<Rightarrow> 1 + pending (ancestors c))")
  show "wf (measure (\<lambda>x. case x of
          Inl (i, c, l) \<Rightarrow> weight (currentNode c) + pending (ancestors c)
        | Inr (i, c, l) \<Rightarrow> 1 + pending (ancestors c)))" by simp
next
  fix index :: int and cursor :: treeCursor and lastNode :: "snode option"
  assume "children (currentNode cursor) \<noteq> []"
  then obtain k ks where ks: "children (currentNode cursor) = k # ks"
    by (cases "children (currentNode cursor)") auto
  then have "weight (currentNode cursor) = 2 + weight k + sum_list (map weight ks)"
    by (cases "currentNode cursor") auto
  then show "(Inl (index, gotoFirstChild cursor, Some (currentNode cursor)), Inl (index, cursor, lastNode))
        \<in> measure (\<lambda>x. case x of
          Inl (i, c, l) \<Rightarrow> weight (currentNode c) + pending (ancestors c)
        | Inr (i, c, l) \<Rightarrow> 1 + pending (ancestors c))"
    using ks by (simp add: gotoFirstChild_def pending_def)
next
  fix index :: int and cursor :: treeCursor and lastNode :: "snode option"
  have "2 \<le> weight (currentNode cursor)" by (cases "currentNode cursor") simp
  then show "(Inr (index, cursor, Some (currentNode cursor)), Inl (index, cursor, lastNode))
        \<in> measure (\<lambda>x. case x of
          Inl (i, c, l) \<Rightarrow> weight (currentNode c) + pending (ancestors c)
        | Inr (i, c, l) \<Rightarrow> 1 + pending (ancestors c))"
    by simp
next
  fix index :: int and cursor :: treeCursor and lastNode :: "snode option"
  assume "nextSibling cursor \<noteq> None"
  then obtain p r rs up where "ancestors cursor = (p, r # rs) # up"
    by (auto simp: nextSibling_def split: list.splits prod.splits)
  then show "(Inl (index, gotoNextSibling cursor, lastNode), Inr (index, cursor, lastNode))
        \<in> measure (\<lambda>x. case x of
          Inl (i, c, l) \<Rightarrow> weight (currentNode c) + pending (ancestors c)
        | Inr (i, c, l) \<Rightarrow> 1 + pending (ancestors c))"
    by (simp add: gotoNextSibling_def pending_def)
next
  fix index :: int and cursor :: treeCursor and lastNode :: "snode option"
  assume "\<not> nextSibling cursor \<noteq> None" "parent cursor \<noteq> None"
  then obtain p up where "ancestors cursor = (p, []) # up"
    by (auto simp: nextSibling_def parent_def split: list.splits prod.splits)
  then show "(Inr (index, gotoParent cursor, lastNode), Inr (index, cursor, lastNode))
        \<in> measure (\<lambda>x. case x of
          Inl (i, c, l) \<Rightarrow> weight (currentNode c) + pending (ancestors c)
        | Inr (i, c, l) \<Rightarrow> 1 + pending (ancestors c))"
    by (simp add: gotoParent_def pending_def)
qed

declare findRec.simps [simp del] findNext.simps [simp del]

definition findSyntaxNode :: "snode \<Rightarrow> int \<Rightarrow> snode option" where
  "findSyntaxNode root index = findRec index (walk root) None"

text \<open>
  The order in which a descent-first traversal meets the nodes, and the trees a parser
  hands out: every span is well formed, the children lie inside their parent, and each
  child ends at or before the start of the next.
\<close>

fun preorder :: "snode \<Rightarrow> snode list" where
  "preorder (SNode i s e ks) = SNode i s e ks # concat (map preorder ks)"

fun wellFormed :: "snode \<Rightarrow> bool" where
  "wellFormed (SNode i s e ks) =
     (s \<le> e \<and> (\<forall>k \<in> set ks. wellFormed k \<and> s \<le> startIndex k \<and> endIndex k \<le> e)
      \<and> sorted_wrt (\<lambda>a b. endIndex a \<le> startIndex b) ks)"

definition upcoming :: "(snode \<times> snode list) list \<Rightarrow> snode list" where
  "upcoming up = concat (map (\<lambda>(p, rs). concat (map preorder rs)) up)"

definition lastOr :: "'a option \<Rightarrow> 'a list \<Rightarrow> 'a option" where
  "lastOr d xs = (if xs = [] then d else Some (last xs))"

definition startsBefore :: "int \<Rightarrow> snode \<Rightarrow> bool" where
  "startsBefore index n = (int (startIndex n) < index)"

section \<open>The engine\<close>

subsection \<open>What the engine is given\<close>

text \<open>
  Failures of the host that the engine's own calls can provoke: reading a property of
  \<^verbatim>\<open>undefined\<close>, and \<^verbatim>\<open>Range.setStart\<close> or \<^verbatim>\<open>Range.setEnd\<close> with an offset outside
  the node.
\<close>

datatype error = TypeError | IndexSizeError

definition andThen :: "error + 'a \<Rightarrow> ('a \<Rightarrow> error + 'b) \<Rightarrow> error + 'b" where
  "andThen r f = (case r of Inl err \<Rightarrow> Inl err | Inr v \<Rightarrow> f v)"

text \<open>The optional argument \<^verbatim>\<open>change\<close> of \<^verbatim>\<open>sourceChange\<close>.\<close>

record change =
  chStart :: int
  chNewEnd :: int
  chOldEnd :: int

text \<open>
  The parser library is a parameter of the engine: \<^verbatim>\<open>parser.parse(text, oldTree?)\<close>,
  \<^verbatim>\<open>tree.edit(delta)\<close> and \<^verbatim>\<open>language.query(text)\<close>, which raises on a malformed query
  (\<open>None\<close>). The three are taken as total functions.

  \<^verbatim>\<open>edit\<close> gives what the call returns, which is what the engine stores as its tree:
  \<open>None\<close> is \<^verbatim>\<open>undefined\<close>. The library's declaration promises the tree;
  web-tree-sitter's \<^verbatim>\<open>Tree.edit\<close> returns nothing.

  A compiled query gives, for a root node, its matches, each a list of captures. A capture
  carries the node object that the library hands out, named here by a reference, the node
  it stands for, and the capture name. web-tree-sitter makes a new node object for every
  capture, so its references are all different.

  The engine creates its parser in \<^verbatim>\<open>init\<close>, before the first use, and its constructor is
  private, so every engine a caller holds has one; the state keeps the library's functions
  from construction on.
\<close>

type_synonym capture = "nat \<times> snode \<times> string"

type_synonym compiledQuery = "snode \<Rightarrow> capture list list"

record 'u treeSitter =
  parse :: "'u list \<Rightarrow> snode option \<Rightarrow> snode"
  edit :: "snode \<Rightarrow> change \<Rightarrow> snode option"
  query :: "string \<Rightarrow> compiledQuery option"

text \<open>The type \<^verbatim>\<open>Selection\<close>.\<close>

record sel =
  selStart :: int
  selEnd :: int

text \<open>
  The nodes of the page that a selection boundary can sit in: the text node of the
  \<open>k\<close>-th span of the code area, the code area itself, the document (where a fresh range
  starts), or any other node. A position is what \<^verbatim>\<open>findNode\<close> returns; a range is the
  host's \<^verbatim>\<open>Range\<close>.
\<close>

datatype domNode = TextOf nat | CodeArea | Document | Elsewhere

record position =
  posNode :: domNode
  posIndex :: int

record range =
  startContainer :: domNode
  startOffset :: int
  endContainer :: domNode
  endOffset :: int

text \<open>
  Listeners on the host's event sources, the callbacks kept for teardown, the three widget
  classes of the repository and the state of a widget object.
\<close>

datatype emitterName = BeforeChange | AfterChange

datatype listener = InputListener | SelectionChangeListener | HotKeyListener nat

datatype disposer =
    RemoveRootListener string listener
  | RemoveDocumentListener string listener
  | Off emitterName nat

datatype widgetKind = Widget | CodeCompleteWidget | CodeErrorWidget

record widget =
  kind :: widgetKind
  codeLineSet :: bool
  wdisposables :: "disposer list"

text \<open>
  A record of what happened, in order: an emitter firing, with the handlers subscribed at
  that moment; a widget's \<^verbatim>\<open>init\<close>; the calls on the parser.
\<close>

datatype call =
    Emit emitterName "nat list"
  | WidgetInit nat
  | TreeEdit change
  | ParseFull
  | ParseIncremental

text \<open>\<^verbatim>\<open>LineEditorOptions\<close>; the language is passed beside it.\<close>

record 'u options =
  opSource :: "'u list option"
  opHighlight :: "string option"
  opWidgets :: "nat list option"

text \<open>
  The fields of \<^verbatim>\<open>CodeLine\<close>, followed by the part of the host the engine touches: the
  window's selection, the listeners on the root element and on the document, the widget
  objects by reference, and the record of calls. A handler subscribed to an emitter is named
  by the widget that subscribed it. The code area is the list of its spans.
\<close>

record 'u codeLine =
  source :: "'u list"
  language :: "'u treeSitter"
  highlightQuery :: "compiledQuery option"
  tree :: "snode option"
  selection :: "sel option"
  codeArea :: "'u segment list"
  disposables :: "disposer list"
  widgets :: "nat list"
  beforeChange :: "nat list"
  afterChange :: "nat list"
  hostSelection :: "range option"
  rootListeners :: "(string \<times> listener) list"
  documentListeners :: "(string \<times> listener) list"
  widgetHeap :: "nat \<Rightarrow> widget"
  trace :: "call list"

record host =
  hostSelection0 :: "range option"
  rootListeners0 :: "(string \<times> listener) list"
  documentListeners0 :: "(string \<times> listener) list"
  widgetHeap0 :: "nat \<Rightarrow> widget"

subsection \<open>Emitter and CompositeDisposable\<close>

text \<open>
  Modelled from the spec: \<^verbatim>\<open>Emitter.ts\<close> is imported by the engine and is not among the
  sources. The spec describes it as a synchronous typed publish/subscribe channel with
  explicit unsubscribe tokens. So \<^verbatim>\<open>emit\<close> calls the handlers subscribed at that moment and
  nothing is kept for handlers that subscribe later.

  The handlers in the repository, those of \<^verbatim>\<open>CodeCompleteWidget\<close> and \<^verbatim>\<open>CodeErrorWidget\<close>,
  read the engine and write their own overlay only; the model records that they were
  called.
\<close>

definition subscribers :: "emitterName \<Rightarrow> 'u codeLine \<Rightarrow> nat list" where
  "subscribers name e = (case name of BeforeChange \<Rightarrow> beforeChange e | AfterChange \<Rightarrow> afterChange e)"

definition emit :: "emitterName \<Rightarrow> 'u codeLine \<Rightarrow> 'u codeLine" where
  "emit name e = e\<lparr>trace := trace e @ [Emit name (subscribers name e)]\<rparr>"

text \<open>
  Modelled from the spec: \<^verbatim>\<open>Emitter.on\<close>, of the same absent file, adds a handler and
  returns the callback that removes it, which the widgets hand to their disposables as
  \<open>Off\<close>.
\<close>

definition on :: "emitterName \<Rightarrow> nat \<Rightarrow> 'u codeLine \<Rightarrow> 'u codeLine" where
  "on name h e =
     (case name of
        BeforeChange \<Rightarrow> e\<lparr>beforeChange := beforeChange e @ [h]\<rparr>
      | AfterChange \<Rightarrow> e\<lparr>afterChange := afterChange e @ [h]\<rparr>)"

text \<open>
  \<^verbatim>\<open>addEventListener\<close> ignores a listener that is already registered for the type;
  \<^verbatim>\<open>removeEventListener\<close> removes it.
\<close>

definition addEventListener ::
  "string \<times> listener \<Rightarrow> (string \<times> listener) list \<Rightarrow> (string \<times> listener) list" where
  "addEventListener l ls = (if l \<in> set ls then ls else ls @ [l])"

definition removeEventListener ::
  "string \<times> listener \<Rightarrow> (string \<times> listener) list \<Rightarrow> (string \<times> listener) list" where
  "removeEventListener l ls = filter (\<lambda>x. x \<noteq> l) ls"

text \<open>What each callback kept for teardown does when it is called.\<close>

fun runDisposer :: "disposer \<Rightarrow> 'u codeLine \<Rightarrow> 'u codeLine" where
  "runDisposer (RemoveRootListener ty l) e =
     e\<lparr>rootListeners := removeEventListener (ty, l) (rootListeners e)\<rparr>"
| "runDisposer (RemoveDocumentListener ty l) e =
     e\<lparr>documentListeners := removeEventListener (ty, l) (documentListeners e)\<rparr>"
| "runDisposer (Off BeforeChange h) e = e\<lparr>beforeChange := filter (\<lambda>x. x \<noteq> h) (beforeChange e)\<rparr>"
| "runDisposer (Off AfterChange h) e = e\<lparr>afterChange := filter (\<lambda>x. x \<noteq> h) (afterChange e)\<rparr>"

text \<open>
  Modelled from the spec: \<^verbatim>\<open>CompositeDisposable\<close> of \<^verbatim>\<open>Disposable.ts\<close>, which is not among
  the sources. The spec describes the subscriptions as grouped per instance into one
  disposal group that is released on teardown. So the engine and every widget have a group
  of their own, \<^verbatim>\<open>add\<close> appends a callback to the group it is called on, and \<^verbatim>\<open>dispose\<close>
  calls the callbacks of that group, in the order they were added; the owner's group is
  empty afterwards.
\<close>

definition disposeGroup :: "disposer list \<Rightarrow> 'u codeLine \<Rightarrow> 'u codeLine" where
  "disposeGroup ds e = fold runDisposer ds e"

subsection \<open>Selection mapping\<close>

text \<open>
  \<^verbatim>\<open>getOffset\<close> inside \<^verbatim>\<open>fromSelectionChange\<close>: the \<^verbatim>\<open>data-offset\<close> of the span around the
  node, or 0 when the node is not inside a span.
\<close>

definition getOffset :: "'u segment list \<Rightarrow> domNode \<Rightarrow> int" where
  "getOffset spans n =
     (case n of
        TextOf k \<Rightarrow> (if k < length spans then offset (spans ! k) else 0)
      | _ \<Rightarrow> 0)"

definition fromSelectionChange :: "'u codeLine \<Rightarrow> 'u codeLine" where
  "fromSelectionChange e =
     (case hostSelection e of
        None \<Rightarrow> e
      | Some r \<Rightarrow>
          e\<lparr>selection := Some \<lparr>selStart = getOffset (codeArea e) (startContainer r) + startOffset r,
                                 selEnd = getOffset (codeArea e) (endContainer r) + endOffset r\<rparr>\<rparr>)"

text \<open>The loop of \<^verbatim>\<open>findNode\<close> over the children of the code area, \<open>k\<close> counting them.\<close>

fun findNodeFrom :: "nat \<Rightarrow> 'u segment list \<Rightarrow> int \<Rightarrow> position option" where
  "findNodeFrom k [] index = None"
| "findNodeFrom k (child # rest) index =
     (if offset child \<le> index \<and> offset child + int (length (textContent child)) \<ge> index
      then Some \<lparr>posNode = TextOf k, posIndex = index - offset child\<rparr>
      else findNodeFrom (Suc k) rest index)"

definition findNode :: "'u codeLine \<Rightarrow> int \<Rightarrow> position option" where
  "findNode e index = findNodeFrom 0 (codeArea e) index"


text \<open>
  The host's \<^verbatim>\<open>Range\<close>. \<^verbatim>\<open>setStart\<close> and \<^verbatim>\<open>setEnd\<close> raise when the offset is not within
  the node, and keep the start at or before the end by collapsing the range onto the new
  boundary. The engine sets boundaries in text nodes of the code area only, on a range that
  starts out at the document.
\<close>

definition nodeLength :: "'u segment list \<Rightarrow> domNode \<Rightarrow> int" where
  "nodeLength spans n =
     (case n of
        TextOf k \<Rightarrow> (if k < length spans then int (length (textContent (spans ! k))) else 0)
      | CodeArea \<Rightarrow> int (length spans)
      | _ \<Rightarrow> 0)"

fun precedes :: "domNode \<times> int \<Rightarrow> domNode \<times> int \<Rightarrow> bool" where
  "precedes (TextOf j, a) (TextOf k, b) = (j < k \<or> (j = k \<and> a < b))"
| "precedes (Document, a) (TextOf k, b) = True"
| "precedes _ _ = False"

definition createRange :: range where
  "createRange = \<lparr>startContainer = Document, startOffset = 0, endContainer = Document, endOffset = 0\<rparr>"

definition setStart :: "'u segment list \<Rightarrow> range \<Rightarrow> position \<Rightarrow> error + range" where
  "setStart spans r p =
     (if posIndex p < 0 \<or> nodeLength spans (posNode p) < posIndex p then Inl IndexSizeError
      else if precedes (endContainer r, endOffset r) (posNode p, posIndex p)
      then Inr \<lparr>startContainer = posNode p, startOffset = posIndex p,
                endContainer = posNode p, endOffset = posIndex p\<rparr>
      else Inr (r\<lparr>startContainer := posNode p, startOffset := posIndex p\<rparr>))"

definition setEnd :: "'u segment list \<Rightarrow> range \<Rightarrow> position \<Rightarrow> error + range" where
  "setEnd spans r p =
     (if posIndex p < 0 \<or> nodeLength spans (posNode p) < posIndex p then Inl IndexSizeError
      else if precedes (posNode p, posIndex p) (startContainer r, startOffset r)
      then Inr \<lparr>startContainer = posNode p, startOffset = posIndex p,
                endContainer = posNode p, endOffset = posIndex p\<rparr>
      else Inr (r\<lparr>endContainer := posNode p, endOffset := posIndex p\<rparr>))"

definition selectionToRange :: "'u codeLine \<Rightarrow> int \<Rightarrow> int \<Rightarrow> error + range option" where
  "selectionToRange e startIndex' endIndex' =
     (let start = findNode e startIndex'; end' = findNode e endIndex'
      in case (start, end') of
           (Some s, Some en) \<Rightarrow>
             andThen (setStart (codeArea e) createRange s) (\<lambda>r1.
             andThen (setEnd (codeArea e) r1 en) (\<lambda>r2. Inr (Some r2)))
         | _ \<Rightarrow> Inr None)"

definition restoreSelection :: "'u codeLine \<Rightarrow> error + 'u codeLine" where
  "restoreSelection e =
     (case selection e of
        None \<Rightarrow> Inr e
      | Some s \<Rightarrow>
          andThen (selectionToRange e (selStart s) (selEnd s)) (\<lambda>r.
            case r of
              None \<Rightarrow> Inr e
            | Some rg \<Rightarrow> Inr (e\<lparr>hostSelection := Some rg\<rparr>)))"

definition setSelection :: "'u codeLine \<Rightarrow> int \<Rightarrow> int \<Rightarrow> error + 'u codeLine" where
  "setSelection e start end' =
     restoreSelection (e\<lparr>selection := Some \<lparr>selStart = start, selEnd = end'\<rparr>\<rparr>)"

subsection \<open>Highlighting and rendering\<close>

text \<open>
  \<^verbatim>\<open>getHighlight\<close>: the captures of all matches are collected in a \<^verbatim>\<open>Map\<close> whose keys are
  the node objects, in the order the objects are first met. A \<^verbatim>\<open>Map\<close> compares objects by
  identity, so two captures share an entry only when they carry the same object, not when
  their objects stand for the same node. The entries are then sorted by start index; the
  sort is stable. Without a highlight query the map stays empty and the tree is not read.
\<close>

fun addCapture :: "(nat \<times> snode \<times> string list) list \<Rightarrow> capture \<Rightarrow> (nat \<times> snode \<times> string list) list" where
  "addCapture [] (obj, n, name) = [(obj, n, [name])]"
| "addCapture ((key, m, nms) # rest) (obj, n, name) =
     (if key = obj then (key, m, nms @ [name]) # rest
      else (key, m, nms) # addCapture rest (obj, n, name))"

definition getHighlight :: "'u codeLine \<Rightarrow> error + (snode \<times> string list) list" where
  "getHighlight e =
     (case highlightQuery e of
        None \<Rightarrow> Inr []
      | Some q \<Rightarrow>
          (case tree e of
             None \<Rightarrow> Inl TypeError
           | Some root \<Rightarrow>
               Inr (map snd (sort_key (\<lambda>entry. startIndex (fst (snd entry)))
                               (foldl addCapture [] (concat (q root)))))))"

text \<open>
  Emptying the code area moves a boundary of the window's selection that sat inside it to
  the start of the code area.
\<close>

definition detach :: "range \<Rightarrow> range" where
  "detach r =
     (let inside = (\<lambda>n. case n of TextOf k \<Rightarrow> True | CodeArea \<Rightarrow> True | _ \<Rightarrow> False)
      in \<lparr>startContainer = (if inside (startContainer r) then CodeArea else startContainer r),
          startOffset = (if inside (startContainer r) then 0 else startOffset r),
          endContainer = (if inside (endContainer r) then CodeArea else endContainer r),
          endOffset = (if inside (endContainer r) then 0 else endOffset r)\<rparr>)"

definition renderTree :: "'u codeLine \<Rightarrow> error + 'u codeLine" where
  "renderTree e =
     andThen (getHighlight e) (\<lambda>highlight.
       let result = buildSegments (source e) highlight;
           e1 = fromSelectionChange e;
           e2 = e1\<lparr>codeArea := [], hostSelection := map_option detach (hostSelection e1)\<rparr>;
           e3 = e2\<lparr>codeArea := result\<rparr>
       in andThen (restoreSelection e3) (\<lambda>e4. Inr (emit AfterChange e4)))"

subsection \<open>Mutations\<close>

text \<open>
  \<^verbatim>\<open>sourceChange\<close>. With a delta, the engine's tree becomes what \<^verbatim>\<open>edit\<close> returned, and
  the parser is then given the text and that tree; when \<^verbatim>\<open>edit\<close> returned nothing the
  parser gets no previous tree and parses in full.
\<close>

definition sourceChange :: "'u codeLine \<Rightarrow> 'u list \<Rightarrow> change option \<Rightarrow> error + 'u codeLine" where
  "sourceChange e newText ch =
     (let e1 = emit BeforeChange e;
          e2 = e1\<lparr>source := newText\<rparr>
      in case ch of
           Some c \<Rightarrow>
             (case tree e2 of
                None \<Rightarrow> Inl TypeError
              | Some old \<Rightarrow>
                  let edited = edit (language e2) old c;
                      e3 = e2\<lparr>tree := edited, trace := trace e2 @ [TreeEdit c]\<rparr>;
                      e4 = e3\<lparr>tree := Some (parse (language e3) (source e3) (tree e3)),
                               trace := trace e3 @ [case tree e3 of None \<Rightarrow> ParseFull
                                                     | Some patched \<Rightarrow> ParseIncremental]\<rparr>
                  in renderTree e4)
         | None \<Rightarrow>
             renderTree (e2\<lparr>tree := Some (parse (language e2) (source e2) None),
                             trace := trace e2 @ [ParseFull]\<rparr>))"

text \<open>
  \<^verbatim>\<open>replaceText\<close>. The code computes the cursor \<^verbatim>\<open>start + text.length\<close> on JavaScript
  numbers. The sum here is the integer sum, which is what the code computes as long as
  \<open>start\<close> and the sum lie within \<open>\<plusminus>2^53\<close>, where every integer is a number and the
  addition is exact; statements about the cursor beyond the text keep to that range.
\<close>

definition replaceText :: "'u codeLine \<Rightarrow> int \<Rightarrow> int \<Rightarrow> 'u list \<Rightarrow> error + 'u codeLine" where
  "replaceText e start end' text =
     andThen (sourceChange e (slice (source e) 0 start @ text @ sliceFrom (source e) end') None)
       (\<lambda>e1. setSelection e1 (start + int (length text)) (start + int (length text)))"

text \<open>
  The spec's \<^verbatim>\<open>replaceRange\<close>, written from its words for comparison with \<^verbatim>\<open>replaceText\<close>:
  the same new text, handed to the change entry point together with the delta
  \<open>{start, oldEnd: end, newEnd: start + len(text)}\<close>.
\<close>

definition replaceRangeSpec :: "'u codeLine \<Rightarrow> int \<Rightarrow> int \<Rightarrow> 'u list \<Rightarrow> error + 'u codeLine" where
  "replaceRangeSpec e start end' text =
     andThen (sourceChange e (slice (source e) 0 start @ text @ sliceFrom (source e) end')
                (Some \<lparr>chStart = start, chNewEnd = start + int (length text), chOldEnd = end'\<rparr>))
       (\<lambda>e1. setSelection e1 (start + int (length text)) (start + int (length text)))"

subsection \<open>Construction and teardown\<close>

text \<open>\<^verbatim>\<open>new Set(ops.widgets ?? [])\<close>: each widget once, in the order of first occurrence.\<close>

definition newSet :: "'a list \<Rightarrow> 'a list" where
  "newSet xs = foldl (\<lambda>acc x. if x \<in> set acc then acc else acc @ [x]) [] xs"

text \<open>
  The constructor. An absent or empty highlight text gives no query, and so does one that
  the language rejects: the exception is caught.
\<close>

definition construct :: "'u treeSitter \<Rightarrow> 'u options \<Rightarrow> host \<Rightarrow> 'u codeLine" where
  "construct lang ops h =
     \<lparr>source = (case opSource ops of None \<Rightarrow> [] | Some s \<Rightarrow> s),
      language = lang,
      highlightQuery =
        (case opHighlight ops of
           None \<Rightarrow> None
         | Some hl \<Rightarrow> if hl = [] then None else query lang hl),
      tree = None,
      selection = None,
      codeArea = [],
      disposables = [],
      widgets = newSet (case opWidgets ops of None \<Rightarrow> [] | Some ws \<Rightarrow> ws),
      beforeChange = [],
      afterChange = [],
      hostSelection = hostSelection0 h,
      rootListeners = rootListeners0 h,
      documentListeners = documentListeners0 h,
      widgetHeap = widgetHeap0 h,
      trace = []\<rparr>"

definition listenInput :: "'u codeLine \<Rightarrow> 'u codeLine" where
  "listenInput e =
     e\<lparr>rootListeners := addEventListener (''input'', InputListener) (rootListeners e),
       disposables := disposables e @ [RemoveRootListener ''input'' InputListener]\<rparr>"

definition listenSelectionChange :: "'u codeLine \<Rightarrow> 'u codeLine" where
  "listenSelectionChange e =
     e\<lparr>documentListeners :=
         addEventListener (''selectionchange'', SelectionChangeListener) (documentListeners e),
       disposables := disposables e @ [RemoveDocumentListener ''selectionchange'' SelectionChangeListener]\<rparr>"

text \<open>The listener of \<^verbatim>\<open>listenInput\<close>, called by the host with the text of the code area.\<close>

definition inputListener :: "'u codeLine \<Rightarrow> 'u list \<Rightarrow> error + 'u codeLine" where
  "inputListener e innerText = sourceChange e innerText None"

text \<open>
  \<^verbatim>\<open>init\<close> of a widget, by class. The base class stores the engine. \<^verbatim>\<open>CodeCompleteWidget\<close>
  also registers its key listener on the root and subscribes to \<^verbatim>\<open>afterChange\<close>, keeping
  both removals in the widget's own disposables; its match queries are taken to compile.
  \<^verbatim>\<open>CodeErrorWidget\<close> subscribes to \<^verbatim>\<open>afterChange\<close>.
\<close>

definition addWidgetDisposer :: "nat \<Rightarrow> disposer \<Rightarrow> 'u codeLine \<Rightarrow> 'u codeLine" where
  "addWidgetDisposer w d e =
     e\<lparr>widgetHeap := (widgetHeap e)(w := (widgetHeap e w)\<lparr>wdisposables := wdisposables (widgetHeap e w) @ [d]\<rparr>)\<rparr>"

definition widgetInit :: "nat \<Rightarrow> 'u codeLine \<Rightarrow> 'u codeLine" where
  "widgetInit w e =
     (let e0 = e\<lparr>trace := trace e @ [WidgetInit w],
                 widgetHeap := (widgetHeap e)(w := (widgetHeap e w)\<lparr>codeLineSet := True\<rparr>)\<rparr>
      in case kind (widgetHeap e w) of
           Widget \<Rightarrow> e0
         | CodeCompleteWidget \<Rightarrow>
             (let e1 = e0\<lparr>rootListeners := addEventListener (''keydown'', HotKeyListener w) (rootListeners e0)\<rparr>;
                  e2 = addWidgetDisposer w (RemoveRootListener ''keydown'' (HotKeyListener w)) e1;
                  e3 = on AfterChange w e2
              in addWidgetDisposer w (Off AfterChange w) e3)
         | CodeErrorWidget \<Rightarrow> addWidgetDisposer w (Off AfterChange w) (on AfterChange w e0))"

definition init :: "'u codeLine \<Rightarrow> error + 'u codeLine" where
  "init e =
     (let e1 = listenInput e;
          e2 = listenSelectionChange e1
      in andThen (sourceChange e2 (source e2) None) (\<lambda>e3. Inr (fold widgetInit (widgets e3) e3)))"

definition create :: "'u treeSitter \<Rightarrow> 'u options \<Rightarrow> host \<Rightarrow> error + 'u codeLine" where
  "create lang ops h = init (construct lang ops h)"

definition dispose :: "'u codeLine \<Rightarrow> 'u codeLine" where
  "dispose e = (disposeGroup (disposables e) e)\<lparr>disposables := []\<rparr>"

text \<open>\<^verbatim>\<open>Widget.dispose\<close>, for the widget object \<open>w\<close>.\<close>

definition widgetDispose :: "nat \<Rightarrow> 'u codeLine \<Rightarrow> 'u codeLine" where
  "widgetDispose w e =
     (let e1 = disposeGroup (wdisposables (widgetHeap e w)) e
      in e1\<lparr>widgetHeap := (widgetHeap e1)(w := (widgetHeap e1 w)\<lparr>wdisposables := []\<rparr>)\<rparr>)"

subsection \<open>A small instance\<close>

text \<open>
  A language whose trees are a single root over the whole text, whose \<^verbatim>\<open>edit\<close> returns the
  tree as its declaration says, and with a highlight query that captures the root; a host with no selection and no listeners, holding a
  \<^verbatim>\<open>CodeCompleteWidget\<close> at reference 1 and a \<^verbatim>\<open>CodeErrorWidget\<close> at reference 2; and the
  engine that \<^verbatim>\<open>CodeLine.create\<close> builds from them on the text \<open>ab\<close>.
\<close>

definition sampleLanguage :: "char treeSitter" where
  "sampleLanguage =
     \<lparr>parse = (\<lambda>t old. SNode 0 0 (length t) []),
      edit = (\<lambda>root c. Some root),
      query = (\<lambda>q. Some (\<lambda>root. [[(0, root, ''all'')]]))\<rparr>"

definition sampleHost :: host where
  "sampleHost =
     \<lparr>hostSelection0 = None, rootListeners0 = [], documentListeners0 = [],
      widgetHeap0 = (\<lambda>w. \<lparr>kind = (if w = 1 then CodeCompleteWidget
                                     else if w = 2 then CodeErrorWidget else Widget),
                             codeLineSet = False, wdisposables = []\<rparr>)\<rparr>"

definition sampleOptions :: "char options" where
  "sampleOptions = \<lparr>opSource = Some ''ab'', opHighlight = Some ''(source) @all'', opWidgets = Some [1, 2]\<rparr>"

definition sampleEngine :: "char codeLine" where
  "sampleEngine =
     (case create sampleLanguage sampleOptions sampleHost of
        Inr e \<Rightarrow> e
      | Inl err \<Rightarrow> construct sampleLanguage sampleOptions sampleHost)"

definition sampleTree :: snode where
  "sampleTree = SNode 0 0 3 [SNode 1 0 1 [], SNode 2 1 2 [], SNode 3 2 3 []]"

definition calls :: "error + 'u codeLine \<Rightarrow> call list" where
  "calls r = (case r of Inl err \<Rightarrow> [] | Inr e \<Rightarrow> trace e)"

text \<open>
  A language for the text \<open>abcdefgh\<close>. Under the root its tree has a node over \<open>[3, 5)\<close>
  whose first child is a zero-width node at 3, as the parser inserts for a missing token,
  and whose second child covers \<open>[3, 5)\<close>. The highlight query captures the node over
  \<open>[3, 5)\<close> and its zero-width child, in the order the tree is walked. The engine is the
  one \<^verbatim>\<open>CodeLine.create\<close> builds on that text, without widgets.
\<close>

definition tieMissing :: snode where
  "tieMissing = SNode 2 3 3 []"

definition tieOuter :: snode where
  "tieOuter = SNode 1 3 5 [tieMissing, SNode 3 3 5 []]"

definition tieLanguage :: "char treeSitter" where
  "tieLanguage =
     \<lparr>parse = (\<lambda>t old. SNode 0 0 8 [tieOuter]),
      edit = (\<lambda>root c. None),
      query = (\<lambda>q. Some (\<lambda>root. [[(0, tieOuter, ''x'')], [(1, tieMissing, ''y'')]]))\<rparr>"

definition tieOptions :: "char options" where
  "tieOptions = \<lparr>opSource = Some ''abcdefgh'', opHighlight = Some ''(pair) @x (MISSING) @y'',
                  opWidgets = None\<rparr>"

definition tieEngine :: "char codeLine" where
  "tieEngine =
     (case create tieLanguage tieOptions sampleHost of
        Inr e \<Rightarrow> e
      | Inl err \<Rightarrow> construct tieLanguage tieOptions sampleHost)"




section \<open>Slicing lemmas\<close>

lemma relIndex_nonneg: "0 \<le> i \<Longrightarrow> relIndex i len = min (nat i) len"
  by (simp add: relIndex_def)

lemma slice_nonneg:
  "0 \<le> b \<Longrightarrow> 0 \<le> e \<Longrightarrow> slice s b e = take (min (nat e) (length s) - min (nat b) (length s)) (drop (min (nat b) (length s)) s)"
  by (simp add: slice_def relIndex_nonneg Let_def)

lemma slice_split3:
  assumes "0 \<le> a" "a \<le> b" "b \<le> int (length s)"
  shows "slice s 0 a @ slice s a b @ sliceFrom s b = s"
proof -
  have a: "nat a \<le> nat b" "nat b \<le> length s" using assms by auto
  have "take (nat a) s @ take (nat b - nat a) (drop (nat a) s) @ drop (nat b) s = s"
  proof -
    have "take (nat b - nat a) (drop (nat a) s) @ drop (nat b) s = drop (nat a) s"
    proof -
      have "drop (nat b) s = drop (nat b - nat a) (drop (nat a) s)"
        using a by simp
      then show ?thesis by (simp only: append_take_drop_id)
    qed
    then show ?thesis by simp
  qed
  moreover have "relIndex 0 (length s) = 0" "relIndex a (length s) = nat a"
    "relIndex b (length s) = nat b"
    using assms a by (auto simp: relIndex_def)
  ultimately show ?thesis
    by (simp add: slice_def sliceFrom_def Let_def)
qed

lemma length_slice_pre:
  "0 \<le> a \<Longrightarrow> a \<le> int (length s) \<Longrightarrow> int (length (slice s 0 a)) = a"
  by (simp add: slice_def relIndex_def Let_def)

lemma length_slice_mid:
  "0 \<le> a \<Longrightarrow> a \<le> b \<Longrightarrow> b \<le> int (length s) \<Longrightarrow> int (length (slice s a b)) = b - a"
proof -
  assume h: "0 \<le> a" "a \<le> b" "b \<le> int (length s)"
  then have "relIndex a (length s) = nat a" "relIndex b (length s) = nat b"
    by (auto simp: relIndex_def)
  with h show ?thesis by (simp add: slice_def Let_def)
qed

lemma length_sliceFrom:
  "0 \<le> b \<Longrightarrow> b \<le> int (length s) \<Longrightarrow> int (length (sliceFrom s b)) = int (length s) - b"
  by (simp add: sliceFrom_def relIndex_def)

section \<open>Tiling lemmas\<close>

lemma tiles_append:
  "tiles (xs @ ys) lo hi \<longleftrightarrow> (\<exists>mid. tiles xs lo mid \<and> tiles ys mid hi)"
  by (induction xs arbitrary: lo) auto

lemma tiles_snoc:
  "tiles xs lo mid \<Longrightarrow> offset s = mid \<Longrightarrow> tiles (xs @ [s]) lo (mid + int (length (textContent s)))"
  by (auto simp: tiles_append)

lemma tiles_concat_length:
  "tiles segs lo hi \<Longrightarrow> lo + int (length (concat (map textContent segs))) = hi"
proof (induction segs arbitrary: lo)
  case Nil
  then show ?case by simp
next
  case (Cons s ss)
  from Cons.prems have "tiles ss (lo + int (length (textContent s))) hi" by simp
  from Cons.IH[OF this] show ?case by simp
qed

lemma tiles_adjacent:
  "tiles segs lo hi \<Longrightarrow> Suc i < length segs \<Longrightarrow>
     offset (segs ! i) + int (length (textContent (segs ! i))) = offset (segs ! Suc i)"
proof (induction segs arbitrary: lo i)
  case Nil
  then show ?case by simp
next
  case (Cons s ss)
  show ?case
  proof (cases i)
    case 0
    with Cons.prems show ?thesis by (cases ss) auto
  next
    case (Suc j)
    with Cons.prems Cons.IH[of "lo + int (length (textContent s))" j] show ?thesis by simp
  qed
qed

lemma tiles_first: "tiles segs lo hi \<Longrightarrow> segs \<noteq> [] \<Longrightarrow> offset (hd segs) = lo"
  by (cases segs) auto

lemma tiles_last:
  "tiles segs lo hi \<Longrightarrow> segs \<noteq> [] \<Longrightarrow>
     offset (last segs) + int (length (textContent (last segs))) = hi"
  by (induction segs arbitrary: lo) (auto split: if_splits)

lemma tiles_lower: "tiles segs lo hi \<Longrightarrow> \<forall>s \<in> set segs. lo \<le> offset s"
  by (induction segs arbitrary: lo) force+

lemma tiles_sorted: "tiles segs lo hi \<Longrightarrow> sorted (map offset segs)"
proof (induction segs arbitrary: lo)
  case Nil
  then show ?case by simp
next
  case (Cons s ss)
  from Cons.prems have t: "tiles ss (lo + int (length (textContent s))) hi" and o: "offset s = lo"
    by auto
  from tiles_lower[OF t] o have "\<forall>x \<in> set ss. offset s \<le> offset x" by force
  with Cons.IH[OF t] show ?case by simp
qed

lemma chain_le: "chain lo highlight hi \<Longrightarrow> lo \<le> hi"
proof (induction highlight arbitrary: lo)
  case Nil
  then show ?case by simp
next
  case (Cons a rest)
  obtain n nms where a: "a = (n, nms)" by (cases a)
  from Cons.prems a have "lo \<le> int (startIndex n)" "int (startIndex n) \<le> int (endIndex n)"
    "chain (int (endIndex n)) rest hi"
    by auto
  with Cons.IH[of "int (endIndex n)"] show ?case by linarith
qed

lemma chain_from_spans:
  assumes "spansWithin len highlight" "ascendingDisjoint highlight" "lo \<le> int len"
    and "\<forall>a \<in> set highlight. lo \<le> int (startIndex (fst a))"
  shows "chain lo highlight (int len)"
  using assms
proof (induction highlight arbitrary: lo)
  case Nil
  then show ?case by simp
next
  case (Cons a rest)
  obtain n nms where a: "a = (n, nms)" by (cases a)
  from Cons.prems(1) a have n: "startIndex n \<le> endIndex n" "endIndex n \<le> len"
    and w: "spansWithin len rest"
    by (auto simp: spansWithin_def)
  from Cons.prems(2) a have d: "ascendingDisjoint rest"
    and b: "\<forall>x \<in> set rest. int (endIndex n) \<le> int (startIndex (fst x))"
    by (auto simp: ascendingDisjoint_def)
  have "chain (int (endIndex n)) rest (int len)"
    using Cons.IH[OF w d _ b] n by simp
  with Cons.prems(4) a n show ?case by simp
qed

lemma renderLoop_inv:
  assumes "chain index highlight (index + int (length src))" "tiles result lo index" "0 \<le> index"
  shows "tiles (renderLoop highlight src index result) lo (index + int (length src))
       \<and> concat (map textContent (renderLoop highlight src index result))
           = concat (map textContent result) @ src"
  using assms
proof (induction highlight arbitrary: src index result)
  case Nil
  then show ?case by (auto simp: tiles_append)
next
  case (Cons a rest)
  obtain n nms where a: "a = (n, nms)" by (cases a)
  define s where "s = int (startIndex n) - index"
  define e where "e = int (endIndex n) - index"
  define pre where "pre = slice src 0 s"
  define body where "body = slice src s e"
  define src' where "src' = sliceFrom src e"
  define result1 where
    "result1 = (if pre \<noteq> [] then result @ [\<lparr>names = [], textContent = pre, offset = index\<rparr>] else result)"
  define result2 where
    "result2 = (if body \<noteq> [] then result1 @ [\<lparr>names = nms, textContent = body, offset = int (startIndex n)\<rparr>] else result1)"
  have step: "renderLoop (a # rest) src index result
                = renderLoop rest src' (int (endIndex n)) result2"
    by (simp add: a Let_def s_def e_def pre_def body_def src'_def result1_def result2_def)
  from Cons.prems(1) a have ch: "index \<le> int (startIndex n)" "startIndex n \<le> endIndex n"
    "chain (int (endIndex n)) rest (index + int (length src))"
    by auto
  from chain_le[OF ch(3)] have eb: "e \<le> int (length src)" by (simp add: e_def)
  have sb: "0 \<le> s" "s \<le> e" using ch by (auto simp: s_def e_def)
  have lpre: "int (length pre) = s"
    unfolding pre_def using sb eb by (intro length_slice_pre) auto
  have lbody: "int (length body) = e - s"
    unfolding body_def using sb eb by (intro length_slice_mid) auto
  have lsrc: "int (length src') = int (length src) - e"
    unfolding src'_def using sb eb by (intro length_sliceFrom) auto
  have split: "pre @ body @ src' = src"
    unfolding pre_def body_def src'_def using sb eb by (intro slice_split3) auto
  have t1: "tiles result1 lo (int (startIndex n))"
  proof (cases "pre = []")
    case True
    with lpre have "s = 0" by simp
    with Cons.prems(2) True show ?thesis by (simp add: result1_def s_def)
  next
    case False
    have "tiles (result @ [\<lparr>names = [], textContent = pre, offset = index\<rparr>]) lo
            (index + int (length (textContent \<lparr>names = [], textContent = pre, offset = index\<rparr>)))"
      by (rule tiles_snoc[OF Cons.prems(2)]) simp
    with False lpre show ?thesis by (simp add: result1_def s_def)
  qed
  have t2: "tiles result2 lo (int (endIndex n))"
  proof (cases "body = []")
    case True
    with lbody have "e = s" by simp
    with t1 True show ?thesis by (simp add: result2_def s_def e_def)
  next
    case False
    have "tiles (result1 @ [\<lparr>names = nms, textContent = body, offset = int (startIndex n)\<rparr>]) lo
            (int (startIndex n) + int (length (textContent \<lparr>names = nms, textContent = body, offset = int (startIndex n)\<rparr>)))"
      by (rule tiles_snoc[OF t1]) simp
    with False lbody show ?thesis by (simp add: result2_def s_def e_def)
  qed
  have c2: "concat (map textContent result2) = concat (map textContent result) @ pre @ body"
    by (simp add: result2_def result1_def)
  have hi: "int (endIndex n) + int (length src') = index + int (length src)"
    using lsrc by (simp add: e_def)
  have "chain (int (endIndex n)) rest (int (endIndex n) + int (length src'))"
    using ch(3) hi by simp
  from Cons.IH[OF this t2] have
    "tiles (renderLoop rest src' (int (endIndex n)) result2) lo (int (endIndex n) + int (length src'))
     \<and> concat (map textContent (renderLoop rest src' (int (endIndex n)) result2))
         = concat (map textContent result2) @ src'"
    by simp
  with step hi c2 split show ?case by (simp del: renderLoop.simps)
qed

lemma buildSegments_tiles:
  assumes "spansWithin (length src) highlight" "ascendingDisjoint highlight"
  shows "tiles (buildSegments src highlight) 0 (int (length src))"
    and "concat (map textContent (buildSegments src highlight)) = src"
proof -
  have "chain 0 highlight (int (length src))"
    using chain_from_spans[OF assms, of 0] by simp
  then have "chain 0 highlight (0 + int (length src))" by simp
  from renderLoop_inv[OF this, of "[]" 0]
  show "tiles (buildSegments src highlight) 0 (int (length src))"
    and "concat (map textContent (buildSegments src highlight)) = src"
    by (simp_all add: buildSegments_def)
qed

text \<open>
  For well-formed spans with strictly ascending starts, ascending disjoint order is the same
  as no two spans overlapping.
\<close>

lemma ascendingDisjoint_pairwise:
  assumes "sorted_wrt (\<lambda>a b. startIndex (fst a) < startIndex (fst b)) highlight"
    and "\<forall>a \<in> set highlight. startIndex (fst a) \<le> endIndex (fst a)"
  shows "ascendingDisjoint highlight
       \<longleftrightarrow> sorted_wrt (\<lambda>a b. \<not> overlaps (fst a) (fst b)) highlight"
  using assms
proof (induction highlight)
  case Nil
  then show ?case by (simp add: ascendingDisjoint_def)
next
  case (Cons a rest)
  have "endIndex (fst a) \<le> startIndex (fst b) \<longleftrightarrow> \<not> overlaps (fst a) (fst b)"
    if "b \<in> set rest" for b
  proof -
    from Cons.prems that have "startIndex (fst a) < startIndex (fst b)"
      "startIndex (fst b) \<le> endIndex (fst b)"
      by auto
    then show ?thesis by (auto simp: overlaps_def)
  qed
  moreover have "ascendingDisjoint rest
       \<longleftrightarrow> sorted_wrt (\<lambda>a b. \<not> overlaps (fst a) (fst b)) rest"
    using Cons by simp
  ultimately show ?case by (auto simp: ascendingDisjoint_def)
qed

section \<open>Traversal lemmas\<close>

lemma preorder_unfold: "preorder n = n # concat (map preorder (children n))"
  by (cases n) simp

lemma lastOr_Cons: "lastOr d (x # xs) = lastOr (Some x) xs"
  by (simp add: lastOr_def)

lemma find_traversal:
  "findRec index c l =
     lastOr l (takeWhile (startsBefore index) (preorder (currentNode c) @ upcoming (ancestors c)))"
  "findNext index c l =
     lastOr l (takeWhile (startsBefore index) (upcoming (ancestors c)))"
proof (induction index c l and index c l rule: findRec_findNext.induct)
  case (1 index cursor lastNode)
  let ?n = "currentNode cursor"
  show ?case
  proof (cases "startsBefore index ?n")
    case False
    then show ?thesis
      by (subst findRec.simps, subst preorder_unfold) (simp add: lastOr_def startsBefore_def)
  next
    case True
    then have lt: "int (startIndex ?n) < index" by (simp add: startsBefore_def)
    show ?thesis
    proof (cases "children ?n")
      case Nil
      have "preorder ?n = [?n]" using Nil by (subst preorder_unfold) simp
      moreover have "findRec index cursor lastNode = findNext index cursor (Some ?n)"
        using lt Nil by (subst findRec.simps) simp
      ultimately show ?thesis
        using True lt Nil "1.IH"(2) by (simp add: lastOr_Cons)
    next
      case (Cons k ks)
      have pre: "preorder ?n = ?n # preorder k @ concat (map preorder ks)"
        using Cons by (subst preorder_unfold) simp
      have g: "currentNode (gotoFirstChild cursor) = k"
        "ancestors (gotoFirstChild cursor) = (?n, ks) # ancestors cursor"
        using Cons by (simp_all add: gotoFirstChild_def)
      have "findRec index cursor lastNode = findRec index (gotoFirstChild cursor) (Some ?n)"
        using lt Cons by (subst findRec.simps) simp
      also have "\<dots> = lastOr (Some ?n)
          (takeWhile (startsBefore index) (preorder k @ upcoming ((?n, ks) # ancestors cursor)))"
        using "1.IH"(1) lt Cons g by simp
      finally show ?thesis
        using True by (simp add: pre lastOr_Cons upcoming_def del: takeWhile_append)
    qed
  qed
next
  case (2 index cursor lastNode)
  show ?case
  proof (cases "ancestors cursor")
    case Nil
    then show ?thesis
      by (subst findNext.simps) (simp add: nextSibling_def parent_def upcoming_def lastOr_def)
  next
    case (Cons a up)
    obtain p rs where a: "a = (p, rs)" by (cases a)
    show ?thesis
    proof (cases rs)
      case Nil
      have ns: "nextSibling cursor = None" "parent cursor \<noteq> None"
        "ancestors (gotoParent cursor) = up"
        using Cons a Nil by (simp_all add: nextSibling_def parent_def gotoParent_def)
      have "findNext index cursor lastNode = findNext index (gotoParent cursor) lastNode"
        using ns by (subst findNext.simps) simp
      then show ?thesis
        using "2.IH"(2) ns Cons a Nil by (simp add: upcoming_def)
    next
      case (Cons r rs')
      have ns: "nextSibling cursor \<noteq> None" "currentNode (gotoNextSibling cursor) = r"
        "ancestors (gotoNextSibling cursor) = (p, rs') # up"
        using \<open>ancestors cursor = a # up\<close> a Cons
        by (simp_all add: nextSibling_def gotoNextSibling_def)
      have "findNext index cursor lastNode = findRec index (gotoNextSibling cursor) lastNode"
        using ns by (subst findNext.simps) simp
      then show ?thesis
        using "2.IH"(1) ns \<open>ancestors cursor = a # up\<close> a Cons
        by (simp add: upcoming_def del: takeWhile_append)
    qed
  qed
qed

lemma findSyntaxNode_traversal:
  "findSyntaxNode root index = lastOr None (takeWhile (startsBefore index) (preorder root))"
  by (simp add: findSyntaxNode_def walk_def find_traversal(1) upcoming_def)

lemma preorder_within:
  "wellFormed n \<Longrightarrow> m \<in> set (preorder n) \<Longrightarrow>
     startIndex n \<le> startIndex m \<and> startIndex m \<le> endIndex n"
proof (induction n arbitrary: m)
  case (SNode i s e ks)
  show ?case
  proof (cases "m = SNode i s e ks")
    case True
    with SNode.prems show ?thesis by simp
  next
    case False
    with SNode.prems(2) obtain k where k: "k \<in> set ks" "m \<in> set (preorder k)" by auto
    from SNode.prems(1) k(1) have wk: "wellFormed k" "s \<le> startIndex k" "endIndex k \<le> e" by auto
    from SNode.IH[OF k(1) wk(1) k(2)] wk show ?thesis by simp
  qed
qed

lemma sorted_children_preorder:
  assumes "\<forall>k \<in> set ks. wellFormed k \<and> sorted (map startIndex (preorder k))"
    and "sorted_wrt (\<lambda>a b. endIndex a \<le> startIndex b) ks"
  shows "sorted (map startIndex (concat (map preorder ks)))"
  using assms
proof (induction ks)
  case Nil
  then show ?case by simp
next
  case (Cons k ks)
  have "startIndex x \<le> startIndex y"
    if "x \<in> set (preorder k)" "k' \<in> set ks" "y \<in> set (preorder k')" for x k' y
  proof -
    have "startIndex x \<le> endIndex k" using preorder_within[of k x] Cons.prems(1) that(1) by simp
    also have "\<dots> \<le> startIndex k'" using Cons.prems(2) that(2) by simp
    also have "\<dots> \<le> startIndex y" using preorder_within[of k' y] Cons.prems(1) that(2,3) by simp
    finally show ?thesis .
  qed
  moreover have "sorted (map startIndex (concat (map preorder ks)))"
    using Cons by simp
  ultimately show ?case
    using Cons.prems(1) by (auto simp: sorted_append)
qed

lemma wellFormed_sorted: "wellFormed n \<Longrightarrow> sorted (map startIndex (preorder n))"
proof (induction n)
  case (SNode i s e ks)
  have a: "\<forall>k \<in> set ks. wellFormed k \<and> sorted (map startIndex (preorder k))"
    using SNode by auto
  have "sorted (map startIndex (concat (map preorder ks)))"
    using sorted_children_preorder[OF a] SNode.prems by simp
  moreover have "s \<le> startIndex m" if "m \<in> set (concat (map preorder ks))" for m
  proof -
    from that obtain k where k: "k \<in> set ks" "m \<in> set (preorder k)" by auto
    with SNode.prems preorder_within[of k m] show ?thesis by fastforce
  qed
  ultimately show ?case by auto
qed

lemma takeWhile_filter_sorted:
  "sorted (map startIndex xs) \<Longrightarrow> takeWhile (startsBefore c) xs = filter (startsBefore c) xs"
proof (induction xs)
  case Nil
  then show ?case by simp
next
  case (Cons x xs)
  show ?case
  proof (cases "startsBefore c x")
    case True
    with Cons show ?thesis by simp
  next
    case False
    with Cons.prems have "\<forall>y \<in> set xs. \<not> startsBefore c y"
      by (fastforce simp: startsBefore_def)
    then have "filter (startsBefore c) xs = []" by (simp add: filter_empty_conv)
    with False show ?thesis by simp
  qed
qed

lemma lastOr_takeWhile_mono:
  assumes "sorted (map startIndex xs)" "o1 \<le> o2"
    and "lastOr None (takeWhile (startsBefore o1) xs) = Some a"
    and "lastOr None (takeWhile (startsBefore o2) xs) = Some b"
  shows "startIndex a \<le> startIndex b"
proof -
  define ys where "ys = takeWhile (startsBefore o2) xs"
  have t1: "takeWhile (startsBefore o1) xs = takeWhile (startsBefore o1) ys"
    unfolding ys_def using assms(2) by (induction xs) (auto simp: startsBefore_def)
  have sy: "sorted (map startIndex ys)"
    unfolding ys_def using assms(1) by (metis sorted_append takeWhile_dropWhile_id map_append)
  have split: "ys = takeWhile (startsBefore o1) ys @ dropWhile (startsBefore o1) ys" by simp
  from assms(3) t1 have a: "takeWhile (startsBefore o1) ys \<noteq> []"
    "a = last (takeWhile (startsBefore o1) ys)"
    by (auto simp: lastOr_def split: if_splits)
  from assms(4) have b: "ys \<noteq> []" "b = last ys"
    by (auto simp: lastOr_def ys_def split: if_splits)
  show ?thesis
  proof (cases "dropWhile (startsBefore o1) ys = []")
    case True
    with split a b show ?thesis by simp
  next
    case False
    then have "b = last (dropWhile (startsBefore o1) ys)" using b split by (metis last_appendR)
    then have bi: "b \<in> set (dropWhile (startsBefore o1) ys)" using False by simp
    have ai: "a \<in> set (takeWhile (startsBefore o1) ys)" using a by simp
    from sy split have "sorted (map startIndex (takeWhile (startsBefore o1) ys)
        @ map startIndex (dropWhile (startsBefore o1) ys))"
      by (metis map_append)
    with ai bi show ?thesis by (auto simp: sorted_append)
  qed
qed

section \<open>Engine lemmas\<close>

lemma findNodeFrom_Some:
  "findNodeFrom k spans i = Some p \<Longrightarrow>
     \<exists>j < length spans. posNode p = TextOf (k + j) \<and> posIndex p = i - offset (spans ! j)
        \<and> 0 \<le> posIndex p \<and> posIndex p \<le> int (length (textContent (spans ! j)))"
proof (induction spans arbitrary: k)
  case Nil
  then show ?case by simp
next
  case (Cons child rest)
  show ?case
  proof (cases "offset child \<le> i \<and> offset child + int (length (textContent child)) \<ge> i")
    case True
    with Cons.prems have "p = \<lparr>posNode = TextOf k, posIndex = i - offset child\<rparr>" by simp
    with True have "posNode p = TextOf (k + 0) \<and> posIndex p = i - offset ((child # rest) ! 0)
        \<and> 0 \<le> posIndex p \<and> posIndex p \<le> int (length (textContent ((child # rest) ! 0)))"
      by simp
    then show ?thesis by blast
  next
    case False
    with Cons.prems have "findNodeFrom (Suc k) rest i = Some p" by simp
    from Cons.IH[OF this] obtain j where j: "j < length rest" "posNode p = TextOf (Suc k + j)"
      "posIndex p = i - offset (rest ! j)" "0 \<le> posIndex p"
      "posIndex p \<le> int (length (textContent (rest ! j)))"
      by blast
    then have "Suc j < length (child # rest) \<and> posNode p = TextOf (k + Suc j)
        \<and> posIndex p = i - offset ((child # rest) ! Suc j)
        \<and> 0 \<le> posIndex p \<and> posIndex p \<le> int (length (textContent ((child # rest) ! Suc j)))"
      by simp
    then show ?thesis by blast
  qed
qed

lemma findNodeFrom_None:
  "findNodeFrom k spans i = None \<longleftrightarrow>
     (\<forall>seg \<in> set spans. \<not> (offset seg \<le> i \<and> i \<le> offset seg + int (length (textContent seg))))"
  by (induction spans arbitrary: k) auto

lemma findNode_in_node:
  assumes "findNode e i = Some p"
  shows "0 \<le> posIndex p" "posIndex p \<le> nodeLength (codeArea e) (posNode p)"
    "getOffset (codeArea e) (posNode p) + posIndex p = i"
proof -
  from findNodeFrom_Some[OF assms[unfolded findNode_def]] obtain j where
    j: "j < length (codeArea e)" "posNode p = TextOf j" "posIndex p = i - offset (codeArea e ! j)"
      "0 \<le> posIndex p" "posIndex p \<le> int (length (textContent (codeArea e ! j)))"
    by auto
  then show "0 \<le> posIndex p" "posIndex p \<le> nodeLength (codeArea e) (posNode p)"
    "getOffset (codeArea e) (posNode p) + posIndex p = i"
    by (simp_all add: nodeLength_def getOffset_def)
qed

lemma setStart_ok:
  "0 \<le> posIndex p \<Longrightarrow> posIndex p \<le> nodeLength spans (posNode p) \<Longrightarrow> \<exists>r1. setStart spans r p = Inr r1"
  by (simp add: setStart_def)

lemma setEnd_ok:
  "0 \<le> posIndex p \<Longrightarrow> posIndex p \<le> nodeLength spans (posNode p) \<Longrightarrow> \<exists>r1. setEnd spans r p = Inr r1"
  by (simp add: setEnd_def)

lemma selectionToRange_total: "\<exists>r. selectionToRange e a b = Inr r"
proof (cases "findNode e a")
  case None
  then show ?thesis by (simp add: selectionToRange_def)
next
  case (Some s)
  note s = this
  show ?thesis
  proof (cases "findNode e b")
    case None
    with s show ?thesis by (simp add: selectionToRange_def)
  next
    case (Some en)
    from findNode_in_node(1,2)[OF s] obtain r1 where r1: "setStart (codeArea e) createRange s = Inr r1"
      using setStart_ok by blast
    from findNode_in_node(1,2)[OF Some] obtain r2 where r2: "setEnd (codeArea e) r1 en = Inr r2"
      using setEnd_ok by blast
    from s Some r1 r2 show ?thesis by (simp add: selectionToRange_def andThen_def)
  qed
qed

lemma selectionToRange_None:
  "findNode e a = None \<or> findNode e b = None \<Longrightarrow> selectionToRange e a b = Inr None"
  by (auto simp: selectionToRange_def split: option.splits)

lemma restoreSelection_total: "\<exists>hs. restoreSelection e = Inr (e\<lparr>hostSelection := hs\<rparr>)"
proof (cases "selection e")
  case None
  have "e = e\<lparr>hostSelection := hostSelection e\<rparr>" by simp
  with None show ?thesis by (metis (no_types) restoreSelection_def option.simps(4))
next
  case (Some s)
  obtain r where r: "selectionToRange e (selStart s) (selEnd s) = Inr r"
    using selectionToRange_total by blast
  show ?thesis
  proof (cases r)
    case None
    have "e = e\<lparr>hostSelection := hostSelection e\<rparr>" by simp
    moreover have "restoreSelection e = Inr e"
      using Some r None by (simp add: restoreSelection_def andThen_def)
    ultimately show ?thesis by metis
  next
    case (Some rg)
    with \<open>selection e = Some s\<close> r have "restoreSelection e = Inr (e\<lparr>hostSelection := Some rg\<rparr>)"
      by (simp add: restoreSelection_def andThen_def)
    then show ?thesis by blast
  qed
qed

lemma setSelection_total:
  "\<exists>hs. setSelection e a b = Inr (e\<lparr>selection := Some \<lparr>selStart = a, selEnd = b\<rparr>, hostSelection := hs\<rparr>)"
  using restoreSelection_total[of "e\<lparr>selection := Some \<lparr>selStart = a, selEnd = b\<rparr>\<rparr>"]
  by (simp add: setSelection_def)

lemma renderTree_total:
  assumes "getHighlight e = Inr highlight"
  shows "\<exists>hs sl. renderTree e =
           Inr (e\<lparr>codeArea := buildSegments (source e) highlight, selection := sl,
                  hostSelection := hs, trace := trace e @ [Emit AfterChange (afterChange e)]\<rparr>)"
proof -
  define e3 where "e3 = (fromSelectionChange e)\<lparr>codeArea := [],
      hostSelection := map_option detach (hostSelection (fromSelectionChange e))\<rparr>\<lparr>codeArea := buildSegments (source e) highlight\<rparr>"
  obtain hs where hs: "restoreSelection e3 = Inr (e3\<lparr>hostSelection := hs\<rparr>)"
    using restoreSelection_total by blast
  have f: "fromSelectionChange e = e\<lparr>selection := selection (fromSelectionChange e)\<rparr>"
    by (simp add: fromSelectionChange_def split: option.splits)
  have "renderTree e = Inr (emit AfterChange (e3\<lparr>hostSelection := hs\<rparr>))"
    using assms hs by (simp add: renderTree_def andThen_def Let_def e3_def)
  also have "emit AfterChange (e3\<lparr>hostSelection := hs\<rparr>) =
      e\<lparr>codeArea := buildSegments (source e) highlight, selection := selection (fromSelectionChange e),
        hostSelection := hs, trace := trace e @ [Emit AfterChange (afterChange e)]\<rparr>"
    unfolding e3_def by (subst f) (simp add: emit_def subscribers_def fromSelectionChange_def split: option.splits)
  finally show ?thesis by blast
qed

lemma getHighlight_total: "tree e \<noteq> None \<Longrightarrow> \<exists>hl. getHighlight e = Inr hl"
  by (auto simp: getHighlight_def split: option.splits)

lemma sourceChange_full:
  "\<exists>hl sl hs. sourceChange e t None =
      Inr (e\<lparr>source := t, tree := Some (parse (language e) t None),
             codeArea := buildSegments t hl, selection := sl, hostSelection := hs,
             trace := trace e @ [Emit BeforeChange (beforeChange e), ParseFull,
                                 Emit AfterChange (afterChange e)]\<rparr>)"
proof -
  define e2 where "e2 = e\<lparr>source := t, tree := Some (parse (language e) t None),
      trace := trace e @ [Emit BeforeChange (beforeChange e), ParseFull]\<rparr>"
  have sc: "sourceChange e t None = renderTree e2"
    by (simp add: sourceChange_def Let_def emit_def subscribers_def e2_def)
  obtain hl where hl: "getHighlight e2 = Inr hl"
    using getHighlight_total[of e2] by (auto simp: e2_def)
  from renderTree_total[OF hl] obtain hs sl where
    "renderTree e2 = Inr (e2\<lparr>codeArea := buildSegments (source e2) hl, selection := sl,
        hostSelection := hs, trace := trace e2 @ [Emit AfterChange (afterChange e2)]\<rparr>)"
    by blast
  with sc have "sourceChange e t None =
      Inr (e\<lparr>source := t, tree := Some (parse (language e) t None),
             codeArea := buildSegments t hl, selection := sl, hostSelection := hs,
             trace := trace e @ [Emit BeforeChange (beforeChange e), ParseFull,
                                 Emit AfterChange (afterChange e)]\<rparr>)"
    by (simp add: e2_def)
  then show ?thesis by blast
qed

lemma replaceText_full:
  "\<exists>hl hs. replaceText e start end' t =
      Inr (e\<lparr>source := slice (source e) 0 start @ t @ sliceFrom (source e) end',
             tree := Some (parse (language e) (slice (source e) 0 start @ t @ sliceFrom (source e) end') None),
             codeArea := buildSegments (slice (source e) 0 start @ t @ sliceFrom (source e) end') hl,
             selection := Some \<lparr>selStart = start + int (length t), selEnd = start + int (length t)\<rparr>,
             hostSelection := hs,
             trace := trace e @ [Emit BeforeChange (beforeChange e), ParseFull,
                                 Emit AfterChange (afterChange e)]\<rparr>)"
proof -
  let ?new = "slice (source e) 0 start @ t @ sliceFrom (source e) end'"
  from sourceChange_full[of e ?new] obtain hl sl hs where
    sc: "sourceChange e ?new None =
      Inr (e\<lparr>source := ?new, tree := Some (parse (language e) ?new None),
             codeArea := buildSegments ?new hl, selection := sl, hostSelection := hs,
             trace := trace e @ [Emit BeforeChange (beforeChange e), ParseFull,
                                 Emit AfterChange (afterChange e)]\<rparr>)"
    by blast
  let ?e1 = "e\<lparr>source := ?new, tree := Some (parse (language e) ?new None),
             codeArea := buildSegments ?new hl, selection := sl, hostSelection := hs,
             trace := trace e @ [Emit BeforeChange (beforeChange e), ParseFull,
                                 Emit AfterChange (afterChange e)]\<rparr>"
  from setSelection_total[of ?e1 "start + int (length t)" "start + int (length t)"]
  obtain hs' where "setSelection ?e1 (start + int (length t)) (start + int (length t)) =
      Inr (?e1\<lparr>selection := Some \<lparr>selStart = start + int (length t), selEnd = start + int (length t)\<rparr>,
              hostSelection := hs'\<rparr>)"
    by blast
  with sc have "replaceText e start end' t =
      Inr (e\<lparr>source := ?new, tree := Some (parse (language e) ?new None),
             codeArea := buildSegments ?new hl,
             selection := Some \<lparr>selStart = start + int (length t), selEnd = start + int (length t)\<rparr>,
             hostSelection := hs',
             trace := trace e @ [Emit BeforeChange (beforeChange e), ParseFull,
                                 Emit AfterChange (afterChange e)]\<rparr>)"
    by (simp add: replaceText_def andThen_def)
  then show ?thesis by blast
qed

lemma slice_prefix_in_range:
  "0 \<le> a \<Longrightarrow> a \<le> int (length s) \<Longrightarrow> slice s 0 a = take (nat a) s"
  by (simp add: slice_def relIndex_def Let_def)

lemma sliceFrom_in_range:
  "0 \<le> b \<Longrightarrow> sliceFrom s b = drop (nat b) s"
  by (simp add: sliceFrom_def relIndex_def min_def)

lemma slice_prefix_explicit:
  "slice s 0 a = take (nat (if a < 0 then int (length s) + a else a)) s"
  by (auto simp: slice_def relIndex_def Let_def max_def min_def)

lemma sliceFrom_explicit:
  "sliceFrom s b = drop (nat (if b < 0 then int (length s) + b else b)) s"
  by (auto simp: sliceFrom_def relIndex_def max_def min_def)

lemma widgetInit_fields:
  "trace (widgetInit w e) = trace e @ [WidgetInit w]"
  "disposables (widgetInit w e) = disposables e"
  "documentListeners (widgetInit w e) = documentListeners e"
  "beforeChange (widgetInit w e) = beforeChange e"
  "widgets (widgetInit w e) = widgets e"
  "kind (widgetHeap (widgetInit w e) v) = kind (widgetHeap e v)"
  "afterChange (widgetInit w e) = afterChange e @ (if kind (widgetHeap e w) \<noteq> Widget then [w] else [])"
  by (simp_all add: widgetInit_def Let_def addWidgetDisposer_def on_def split: widgetKind.splits)

lemma widgetInit_rootListeners:
  "set (rootListeners (widgetInit w e)) =
     set (rootListeners e) \<union> (if kind (widgetHeap e w) = CodeCompleteWidget then {(''keydown'', HotKeyListener w)} else {})"
  by (auto simp: widgetInit_def Let_def addWidgetDisposer_def on_def addEventListener_def
      split: widgetKind.splits)

lemma widgetInit_wdisposables:
  "set (wdisposables (widgetHeap e v)) \<subseteq> set (wdisposables (widgetHeap (widgetInit w e) v))"
  "kind (widgetHeap e w) = CodeCompleteWidget \<Longrightarrow>
     RemoveRootListener ''keydown'' (HotKeyListener w) \<in> set (wdisposables (widgetHeap (widgetInit w e) w))"
  by (auto simp: widgetInit_def Let_def addWidgetDisposer_def on_def split: widgetKind.splits)

lemma fold_widgetInit_fields:
  "trace (fold widgetInit ws e) = trace e @ map WidgetInit ws"
  "disposables (fold widgetInit ws e) = disposables e"
  "documentListeners (fold widgetInit ws e) = documentListeners e"
  "beforeChange (fold widgetInit ws e) = beforeChange e"
  "widgets (fold widgetInit ws e) = widgets e"
  "kind (widgetHeap (fold widgetInit ws e) v) = kind (widgetHeap e v)"
  by (induction ws arbitrary: e) (simp_all add: widgetInit_fields)

lemma fold_widgetInit_afterChange:
  "afterChange (fold widgetInit ws e) = afterChange e @ filter (\<lambda>w. kind (widgetHeap e w) \<noteq> Widget) ws"
  by (induction ws arbitrary: e) (simp_all add: widgetInit_fields)

lemma fold_widgetInit_rootListeners:
  "set (rootListeners (fold widgetInit ws e)) =
     set (rootListeners e) \<union> {(''keydown'', HotKeyListener w) | w. w \<in> set ws \<and> kind (widgetHeap e w) = CodeCompleteWidget}"
proof (induction ws arbitrary: e)
  case Nil
  then show ?case by simp
next
  case (Cons a ws)
  have "set (rootListeners (fold widgetInit (a # ws) e)) =
      set (rootListeners (widgetInit a e)) \<union>
      {(''keydown'', HotKeyListener w) | w. w \<in> set ws \<and> kind (widgetHeap (widgetInit a e) w) = CodeCompleteWidget}"
    using Cons.IH[of "widgetInit a e"] by simp
  then show ?case
    by (auto simp: widgetInit_rootListeners widgetInit_fields(6))
qed

lemma fold_widgetInit_wdisposables_mono:
  "set (wdisposables (widgetHeap e v)) \<subseteq> set (wdisposables (widgetHeap (fold widgetInit ws e) v))"
proof (induction ws arbitrary: e)
  case Nil
  then show ?case by simp
next
  case (Cons a ws)
  have "set (wdisposables (widgetHeap e v)) \<subseteq> set (wdisposables (widgetHeap (widgetInit a e) v))"
    by (rule widgetInit_wdisposables(1))
  also have "\<dots> \<subseteq> set (wdisposables (widgetHeap (fold widgetInit ws (widgetInit a e)) v))"
    by (rule Cons.IH)
  finally show ?case by simp
qed

lemma fold_widgetInit_keydown_disposer:
  "w \<in> set ws \<Longrightarrow> kind (widgetHeap e w) = CodeCompleteWidget \<Longrightarrow>
     RemoveRootListener ''keydown'' (HotKeyListener w) \<in> set (wdisposables (widgetHeap (fold widgetInit ws e) w))"
proof (induction ws arbitrary: e)
  case Nil
  then show ?case by simp
next
  case (Cons a ws)
  show ?case
  proof (cases "w = a")
    case True
    with Cons.prems(2) have "RemoveRootListener ''keydown'' (HotKeyListener w)
        \<in> set (wdisposables (widgetHeap (widgetInit a e) w))"
      using widgetInit_wdisposables(2)[of e a] by simp
    with fold_widgetInit_wdisposables_mono[of "widgetInit a e" w ws] show ?thesis by auto
  next
    case False
    with Cons.prems have "w \<in> set ws" "kind (widgetHeap (widgetInit a e) w) = CodeCompleteWidget"
      by (simp_all add: widgetInit_fields(6))
    from Cons.IH[OF this] show ?thesis by simp
  qed
qed

lemma runDisposer_rootListeners:
  "set (rootListeners (runDisposer d e)) \<subseteq> set (rootListeners e)"
  "d = RemoveRootListener ty l \<Longrightarrow> (ty, l) \<notin> set (rootListeners (runDisposer d e))"
  by (induction d e rule: runDisposer.induct) (auto simp: removeEventListener_def)

lemma fold_runDisposer_rootListeners_subset:
  "set (rootListeners (fold runDisposer ds e)) \<subseteq> set (rootListeners e)"
proof (induction ds arbitrary: e)
  case Nil
  then show ?case by simp
next
  case (Cons d ds)
  have "set (rootListeners (fold runDisposer ds (runDisposer d e))) \<subseteq> set (rootListeners (runDisposer d e))"
    by (rule Cons.IH)
  with runDisposer_rootListeners(1)[of d e] show ?case by auto
qed

lemma fold_runDisposer_removes:
  "RemoveRootListener ty l \<in> set ds \<Longrightarrow> (ty, l) \<notin> set (rootListeners (fold runDisposer ds e))"
proof (induction ds arbitrary: e)
  case Nil
  then show ?case by simp
next
  case (Cons d ds)
  show ?case
  proof (cases "d = RemoveRootListener ty l")
    case True
    then have "(ty, l) \<notin> set (rootListeners (runDisposer d e))"
      by (rule runDisposer_rootListeners(2))
    with fold_runDisposer_rootListeners_subset[of ds "runDisposer d e"] show ?thesis by auto
  next
    case False
    with Cons.prems have "RemoveRootListener ty l \<in> set ds" by simp
    from Cons.IH[OF this] show ?thesis by simp
  qed
qed

lemma create_shape:
  "\<exists>e1. create lang ops h = Inr (fold widgetInit (widgets e1) e1)
     \<and> widgets e1 = newSet (case opWidgets ops of None \<Rightarrow> [] | Some ws \<Rightarrow> ws)
     \<and> trace e1 = [Emit BeforeChange [], ParseFull, Emit AfterChange []]
     \<and> beforeChange e1 = [] \<and> afterChange e1 = []
     \<and> disposables e1 = [RemoveRootListener ''input'' InputListener,
                          RemoveDocumentListener ''selectionchange'' SelectionChangeListener]
     \<and> rootListeners e1 = addEventListener (''input'', InputListener) (rootListeners0 h)
     \<and> documentListeners e1 = addEventListener (''selectionchange'', SelectionChangeListener) (documentListeners0 h)
     \<and> widgetHeap e1 = widgetHeap0 h"
proof -
  define e2 where "e2 = listenSelectionChange (listenInput (construct lang ops h))"
  from sourceChange_full[of e2 "source e2"] obtain hl sl hs where
    sc: "sourceChange e2 (source e2) None =
      Inr (e2\<lparr>source := source e2, tree := Some (parse (language e2) (source e2) None),
             codeArea := buildSegments (source e2) hl, selection := sl, hostSelection := hs,
             trace := trace e2 @ [Emit BeforeChange (beforeChange e2), ParseFull,
                                 Emit AfterChange (afterChange e2)]\<rparr>)"
    by blast
  define e3 where "e3 = e2\<lparr>source := source e2, tree := Some (parse (language e2) (source e2) None),
             codeArea := buildSegments (source e2) hl, selection := sl, hostSelection := hs,
             trace := trace e2 @ [Emit BeforeChange (beforeChange e2), ParseFull,
                                 Emit AfterChange (afterChange e2)]\<rparr>"
  have sc': "sourceChange e2 (source e2) None = Inr e3"
    using sc by (simp add: e3_def)
  have "create lang ops h = andThen (sourceChange e2 (source e2) None) (\<lambda>e3. Inr (fold widgetInit (widgets e3) e3))"
    by (simp add: create_def init_def Let_def e2_def)
  then have "create lang ops h = Inr (fold widgetInit (widgets e3) e3)"
    by (simp add: sc' andThen_def)
  moreover have "widgets e3 = newSet (case opWidgets ops of None \<Rightarrow> [] | Some ws \<Rightarrow> ws)"
    "trace e3 = [Emit BeforeChange [], ParseFull, Emit AfterChange []]"
    "beforeChange e3 = []" "afterChange e3 = []"
    "disposables e3 = [RemoveRootListener ''input'' InputListener,
                          RemoveDocumentListener ''selectionchange'' SelectionChangeListener]"
    "rootListeners e3 = addEventListener (''input'', InputListener) (rootListeners0 h)"
    "documentListeners e3 = addEventListener (''selectionchange'', SelectionChangeListener) (documentListeners0 h)"
    "widgetHeap e3 = widgetHeap0 h"
    by (simp_all add: e3_def e2_def listenSelectionChange_def listenInput_def construct_def)
  ultimately show ?thesis by blast
qed

section \<open>The instance, evaluated\<close>

lemmas engine_defs = create_def init_def construct_def listenInput_def listenSelectionChange_def
  sourceChange_def renderTree_def getHighlight_def buildSegments_def fromSelectionChange_def
  restoreSelection_def selectionToRange_def findNode_def setStart_def setEnd_def createRange_def
  emit_def subscribers_def on_def widgetInit_def addWidgetDisposer_def addEventListener_def
  removeEventListener_def newSet_def andThen_def Let_def slice_def sliceFrom_def relIndex_def
  nodeLength_def getOffset_def detach_def setSelection_def replaceText_def

lemmas sample_defs = sampleEngine_def sampleLanguage_def sampleOptions_def sampleHost_def

lemma sample_created: "create sampleLanguage sampleOptions sampleHost = Inr sampleEngine"
proof -
  obtain e1 where "create sampleLanguage sampleOptions sampleHost = Inr (fold widgetInit (widgets e1) e1)"
    using create_shape by blast
  then show ?thesis by (simp add: sampleEngine_def)
qed

lemma sample_fields:
  "source sampleEngine = ''ab''"
  "tree sampleEngine = Some (SNode 0 0 2 [])"
  "selection sampleEngine = None"
  "codeArea sampleEngine = [\<lparr>names = [''all''], textContent = ''ab'', offset = 0\<rparr>]"
  "widgets sampleEngine = [1, 2]"
  "afterChange sampleEngine = [1, 2]"
  "beforeChange sampleEngine = []"
  "rootListeners sampleEngine = [(''input'', InputListener), (''keydown'', HotKeyListener 1)]"
  "documentListeners sampleEngine = [(''selectionchange'', SelectionChangeListener)]"
  "disposables sampleEngine = [RemoveRootListener ''input'' InputListener,
      RemoveDocumentListener ''selectionchange'' SelectionChangeListener]"
  "trace sampleEngine = [Emit BeforeChange [], ParseFull, Emit AfterChange [], WidgetInit 1, WidgetInit 2]"
  "hostSelection sampleEngine = None"
  by (simp_all add: sample_defs engine_defs)

lemma sample_heap:
  "kind (widgetHeap sampleEngine 1) = CodeCompleteWidget"
  "kind (widgetHeap sampleEngine 2) = CodeErrorWidget"
  "wdisposables (widgetHeap sampleEngine 1) =
     [RemoveRootListener ''keydown'' (HotKeyListener 1), Off AfterChange 1]"
  "wdisposables (widgetHeap sampleEngine 2) = [Off AfterChange 2]"
  by (simp_all add: sample_defs engine_defs)

section \<open>Segments and the text (C1)\<close>

lemma tie_created: "create tieLanguage tieOptions sampleHost = Inr tieEngine"
proof -
  obtain e1 where "create tieLanguage tieOptions sampleHost = Inr (fold widgetInit (widgets e1) e1)"
    using create_shape by blast
  then show ?thesis by (simp add: tieEngine_def)
qed

text \<open>
  Claim C1. For every text and every set of tagged nodes whose spans do not overlap, lie
  within the text and are processed in ascending start order, the segments that the render
  step builds are in ascending offset order, each segment ends where the next one starts,
  the first starts at 0, the last ends at the length of the text, and their texts
  concatenated are the text.

  The code breaks this on the engine created for \<open>abcdefgh\<close> with two tagged nodes, one
  over \<open>[3, 5)\<close> and its zero-width first child at 3. The tree is well formed, both spans
  lie within the text, they do not overlap, and \<^verbatim>\<open>getHighlight\<close>, which sorts by start index
  alone and keeps the order of equal starts, hands them to the loop in ascending start
  order with the node over \<open>[3, 5)\<close> first. For the zero-width node the loop then slices
  what is left of the text, \<open>fgh\<close>, at the index \<open>3 - 5\<close>, which \<^verbatim>\<open>slice\<close> counts from the
  end: it emits \<open>f\<close> at offset 5, sets its index back to 3 and emits \<open>gh\<close> at offset 3.
  The rendered offsets are 0, 3, 5, 3: they are not ascending, the third segment ends at 6
  where the fourth starts at 3, and the last segment ends at 5, not at 8.
\<close>

theorem render_zero_width_tie:
  "create tieLanguage tieOptions sampleHost = Inr tieEngine
   \<and> source tieEngine = ''abcdefgh''
   \<and> tree tieEngine = Some (SNode 0 0 8 [tieOuter])
   \<and> wellFormed (SNode 0 0 8 [tieOuter])
   \<and> getHighlight tieEngine = Inr [(tieOuter, [''x'']), (tieMissing, [''y''])]
   \<and> spansWithin (length (source tieEngine)) [(tieOuter, [''x'']), (tieMissing, [''y''])]
   \<and> sorted (map (\<lambda>entry. startIndex (fst entry)) [(tieOuter, [''x'']), (tieMissing, [''y''])])
   \<and> \<not> overlaps tieOuter tieMissing
   \<and> codeArea tieEngine
       = [\<lparr>names = [], textContent = ''abc'', offset = 0\<rparr>,
          \<lparr>names = [''x''], textContent = ''de'', offset = 3\<rparr>,
          \<lparr>names = [], textContent = ''f'', offset = 5\<rparr>,
          \<lparr>names = [], textContent = ''gh'', offset = 3\<rparr>]
   \<and> \<not> sorted (map offset (codeArea tieEngine))
   \<and> offset (codeArea tieEngine ! 2) + int (length (textContent (codeArea tieEngine ! 2)))
       \<noteq> offset (codeArea tieEngine ! 3)
   \<and> offset (last (codeArea tieEngine)) + int (length (textContent (last (codeArea tieEngine))))
       \<noteq> int (length (source tieEngine))"
proof -
  have src: "source tieEngine = ''abcdefgh''"
    and tr: "tree tieEngine = Some (SNode 0 0 8 [tieOuter])"
    and ca: "codeArea tieEngine
       = [\<lparr>names = [], textContent = ''abc'', offset = 0\<rparr>,
          \<lparr>names = [''x''], textContent = ''de'', offset = 3\<rparr>,
          \<lparr>names = [], textContent = ''f'', offset = 5\<rparr>,
          \<lparr>names = [], textContent = ''gh'', offset = 3\<rparr>]"
    by (simp_all add: tieEngine_def tieLanguage_def tieOptions_def tieOuter_def tieMissing_def
        sampleHost_def engine_defs)
  have hl: "getHighlight tieEngine = Inr [(tieOuter, [''x'']), (tieMissing, [''y''])]"
    by (simp add: tieEngine_def tieLanguage_def tieOptions_def tieOuter_def tieMissing_def
        sampleHost_def engine_defs)
  have wf: "wellFormed (SNode 0 0 8 [tieOuter])"
    by (simp add: tieOuter_def tieMissing_def)
  have sw: "spansWithin (length (source tieEngine)) [(tieOuter, [''x'']), (tieMissing, [''y''])]"
    by (simp add: src spansWithin_def tieOuter_def tieMissing_def)
  have so: "sorted (map (\<lambda>entry. startIndex (fst entry)) [(tieOuter, [''x'']), (tieMissing, [''y''])])"
    by (simp add: tieOuter_def tieMissing_def)
  have no: "\<not> overlaps tieOuter tieMissing"
    by (simp add: overlaps_def tieOuter_def tieMissing_def)
  have bad: "\<not> sorted (map offset (codeArea tieEngine))"
    "offset (codeArea tieEngine ! 2) + int (length (textContent (codeArea tieEngine ! 2)))
       \<noteq> offset (codeArea tieEngine ! 3)"
    "offset (last (codeArea tieEngine)) + int (length (textContent (last (codeArea tieEngine))))
       \<noteq> int (length (source tieEngine))"
    by (simp_all add: ca src)
  from tie_created src tr wf hl sw so no ca bad show ?thesis by blast
qed

text \<open>
  Where every span ends at or before the start of every span processed after it, the loop
  does tile the text: the segments are in ascending offset order, each ends where the next
  starts, the first starts at 0, the last ends at the length of the text, and their texts
  concatenated are the text. For spans with strictly ascending starts this order is the
  same as no two of them overlapping (\<open>ascendingDisjoint_pairwise\<close>); the input above has
  two equal starts and is not in this order.
\<close>

lemma segments_tile_source:
  assumes "spansWithin (length src) highlight" "ascendingDisjoint highlight"
  shows "sorted (map offset (buildSegments src highlight))
       \<and> (\<forall>i. Suc i < length (buildSegments src highlight) \<longrightarrow>
             offset (buildSegments src highlight ! i)
               + int (length (textContent (buildSegments src highlight ! i)))
             = offset (buildSegments src highlight ! Suc i))
       \<and> (buildSegments src highlight \<noteq> [] \<longrightarrow>
             offset (hd (buildSegments src highlight)) = 0
           \<and> offset (last (buildSegments src highlight))
               + int (length (textContent (last (buildSegments src highlight))))
             = int (length src))
       \<and> (buildSegments src highlight = [] \<longrightarrow> src = [])
       \<and> concat (map textContent (buildSegments src highlight)) = src"
proof -
  note t = buildSegments_tiles[OF assms]
  have "sorted (map offset (buildSegments src highlight))"
    by (rule tiles_sorted[OF t(1)])
  moreover have "\<forall>i. Suc i < length (buildSegments src highlight) \<longrightarrow>
             offset (buildSegments src highlight ! i)
               + int (length (textContent (buildSegments src highlight ! i)))
             = offset (buildSegments src highlight ! Suc i)"
    using tiles_adjacent[OF t(1)] by blast
  moreover have "buildSegments src highlight \<noteq> [] \<longrightarrow>
             offset (hd (buildSegments src highlight)) = 0
           \<and> offset (last (buildSegments src highlight))
               + int (length (textContent (last (buildSegments src highlight))))
             = int (length src)"
    using tiles_first[OF t(1)] tiles_last[OF t(1)] by blast
  moreover have "buildSegments src highlight = [] \<longrightarrow> src = []"
    using t(2) by auto
  ultimately show ?thesis using t(2) by blast
qed

lemma segments_tile_source_example:
  "spansWithin (length ''1+23'') [(SNode 1 0 1 [], [''number'']), (SNode 2 2 4 [], [''number''])]
   \<and> ascendingDisjoint [(SNode 1 0 1 [], [''number'']), (SNode 2 2 4 [], [''number''])]
   \<and> buildSegments ''1+23'' [(SNode 1 0 1 [], [''number'']), (SNode 2 2 4 [], [''number''])]
       = [\<lparr>names = [''number''], textContent = ''1'', offset = 0\<rparr>,
          \<lparr>names = [], textContent = ''+'', offset = 1\<rparr>,
          \<lparr>names = [''number''], textContent = ''23'', offset = 2\<rparr>]
   \<and> concat (map textContent
        (buildSegments ''1+23'' [(SNode 1 0 1 [], [''number'']), (SNode 2 2 4 [], [''number''])]))
       = ''1+23''"
proof -
  have h1: "spansWithin (length ''1+23'') [(SNode 1 0 1 [], [''number'']), (SNode 2 2 4 [], [''number''])]"
    by (simp add: spansWithin_def)
  have h2: "ascendingDisjoint [(SNode 1 0 1 [], [''number'']), (SNode 2 2 4 [], [''number''])]"
    by (simp add: ascendingDisjoint_def)
  have v: "buildSegments ''1+23'' [(SNode 1 0 1 [], [''number'']), (SNode 2 2 4 [], [''number''])]
       = [\<lparr>names = [''number''], textContent = ''1'', offset = 0\<rparr>,
          \<lparr>names = [], textContent = ''+'', offset = 1\<rparr>,
          \<lparr>names = [''number''], textContent = ''23'', offset = 2\<rparr>]"
    by (simp add: buildSegments_def slice_def sliceFrom_def relIndex_def Let_def)
  from segments_tile_source[OF h1 h2] h1 h2 v show ?thesis by blast
qed

lemma zero_width_after_same_start:
  "\<not> ascendingDisjoint [(tieOuter, [''x'']), (tieMissing, [''y''])]"
  "ascendingDisjoint [(tieMissing, [''y'']), (tieOuter, [''x''])]"
  "buildSegments ''abcdefgh'' [(tieMissing, [''y'']), (tieOuter, [''x''])]
     = [\<lparr>names = [], textContent = ''abc'', offset = 0\<rparr>,
        \<lparr>names = [''x''], textContent = ''de'', offset = 3\<rparr>,
        \<lparr>names = [], textContent = ''fgh'', offset = 5\<rparr>]"
  by (simp_all add: ascendingDisjoint_def buildSegments_def slice_def sliceFrom_def relIndex_def
      Let_def tieOuter_def tieMissing_def)

section \<open>Replacing a range takes the full reparse (C2)\<close>

text \<open>
  Claim C2, as stated: \<^verbatim>\<open>replaceRange(start, end, text)\<close> hands the change entry point the
  delta \<open>{start, oldEnd: end, newEnd: start + len(text)}\<close>, so that the old tree is edited and
  the text reparsed against it. On the created instance \<^verbatim>\<open>replaceText(0, 0, "x")\<close> differs
  from that: the parser is asked for a full parse and the tree is never edited.
\<close>

theorem replaceText_delta_counterexample:
  "replaceText sampleEngine 0 0 ''x'' \<noteq> replaceRangeSpec sampleEngine 0 0 ''x''
   \<and> calls (replaceText sampleEngine 0 0 ''x'')
       = trace sampleEngine @ [Emit BeforeChange [], ParseFull, Emit AfterChange [1, 2]]
   \<and> calls (replaceRangeSpec sampleEngine 0 0 ''x'')
       = trace sampleEngine @ [Emit BeforeChange [], TreeEdit \<lparr>chStart = 0, chNewEnd = 1, chOldEnd = 0\<rparr>,
                               ParseIncremental, Emit AfterChange [1, 2]]"
proof -
  have a: "calls (replaceText sampleEngine 0 0 ''x'')
       = trace sampleEngine @ [Emit BeforeChange [], ParseFull, Emit AfterChange [1, 2]]"
    by (simp add: calls_def sample_defs engine_defs)
  have b: "calls (replaceRangeSpec sampleEngine 0 0 ''x'')
       = trace sampleEngine @ [Emit BeforeChange [], TreeEdit \<lparr>chStart = 0, chNewEnd = 1, chOldEnd = 0\<rparr>,
                               ParseIncremental, Emit AfterChange [1, 2]]"
    by (simp add: calls_def replaceRangeSpec_def sample_defs engine_defs)
  have "calls (replaceText sampleEngine 0 0 ''x'') \<noteq> calls (replaceRangeSpec sampleEngine 0 0 ''x'')"
    unfolding a b by simp
  then have "replaceText sampleEngine 0 0 ''x'' \<noteq> replaceRangeSpec sampleEngine 0 0 ''x''"
    by auto
  with a b show ?thesis by blast
qed

text \<open>
  Claim C2, amended. For every call \<^verbatim>\<open>replaceText(start, end, text)\<close> the change entry
  point is called with the new text and no delta: between the two events the parser is
  asked for one full parse of the new text, the old tree is not edited, and the new tree is
  the parse of the new text without a previous tree.
\<close>

theorem replaceText_full_reparse:
  "\<exists>e'. replaceText e start end' t = Inr e'
     \<and> trace e' = trace e @ [Emit BeforeChange (beforeChange e), ParseFull,
                              Emit AfterChange (afterChange e)]
     \<and> tree e' = Some (parse (language e)
                         (slice (source e) 0 start @ t @ sliceFrom (source e) end') None)"
proof -
  from replaceText_full[of e start end' t] obtain hl hs where
    "replaceText e start end' t =
      Inr (e\<lparr>source := slice (source e) 0 start @ t @ sliceFrom (source e) end',
             tree := Some (parse (language e) (slice (source e) 0 start @ t @ sliceFrom (source e) end') None),
             codeArea := buildSegments (slice (source e) 0 start @ t @ sliceFrom (source e) end') hl,
             selection := Some \<lparr>selStart = start + int (length t), selEnd = start + int (length t)\<rparr>,
             hostSelection := hs,
             trace := trace e @ [Emit BeforeChange (beforeChange e), ParseFull,
                                 Emit AfterChange (afterChange e)]\<rparr>)"
    by blast
  then show ?thesis by simp
qed

theorem replaceText_full_reparse_witness:
  "\<exists>e'. replaceText sampleEngine 0 0 ''x'' = Inr e'
     \<and> trace e' = trace sampleEngine @ [Emit BeforeChange [], ParseFull, Emit AfterChange [1, 2]]
     \<and> tree e' = Some (SNode 0 0 3 [])"
  using replaceText_full_reparse[of sampleEngine 0 0 "''x''"]
  by (simp add: sample_fields) (simp add: sample_defs engine_defs)

section \<open>Teardown (C3)\<close>

text \<open>
  Claim C3. After \<^verbatim>\<open>dispose()\<close> of an engine constructed with any widgets, every listener
  registered on a host event source during its lifetime has been removed, those registered
  by the attached widgets included, and none is left.

  The code breaks this on the instance, created with a \<^verbatim>\<open>CodeCompleteWidget\<close> and a
  \<^verbatim>\<open>CodeErrorWidget\<close> on a host without listeners. \<^verbatim>\<open>initHotKey\<close> registers the widget's
  key listener on the root element and keeps its removal in the widget's own disposables,
  as the engine does for its own two listeners; \<^verbatim>\<open>CodeLine.dispose\<close> disposes the engine's
  disposables only and does not dispose its widgets. After \<^verbatim>\<open>dispose()\<close> the key listener
  of the first widget is still on the root element. The widget's own \<^verbatim>\<open>dispose()\<close>, which
  nothing calls, would remove it.
\<close>

theorem dispose_leaves_widget_listener:
  "create sampleLanguage sampleOptions sampleHost = Inr sampleEngine
   \<and> rootListeners0 sampleHost = [] \<and> documentListeners0 sampleHost = []
   \<and> rootListeners sampleEngine = [(''input'', InputListener), (''keydown'', HotKeyListener 1)]
   \<and> documentListeners sampleEngine = [(''selectionchange'', SelectionChangeListener)]
   \<and> rootListeners (dispose sampleEngine) = [(''keydown'', HotKeyListener 1)]
   \<and> documentListeners (dispose sampleEngine) = []
   \<and> rootListeners (widgetDispose 1 (dispose sampleEngine)) = []"
proof -
  have "rootListeners (dispose sampleEngine) = [(''keydown'', HotKeyListener 1)]"
    "documentListeners (dispose sampleEngine) = []"
    by (simp_all add: dispose_def disposeGroup_def sample_fields removeEventListener_def)
  moreover have "rootListeners (widgetDispose 1 (dispose sampleEngine)) = []"
  proof -
    have "wdisposables (widgetHeap sampleEngine (Suc 0))
        = [RemoveRootListener ''keydown'' (HotKeyListener 1), Off AfterChange 1]"
      using sample_heap(3) by simp
    then show ?thesis
      by (simp add: widgetDispose_def dispose_def disposeGroup_def sample_fields
          removeEventListener_def Let_def)
  qed
  moreover have "rootListeners0 sampleHost = []" "documentListeners0 sampleHost = []"
    by (simp_all add: sampleHost_def)
  ultimately show ?thesis using sample_created sample_fields(8,9) by blast
qed

lemma created_listeners:
  assumes "create lang ops h = Inr e"
  shows "disposables e = [RemoveRootListener ''input'' InputListener,
                          RemoveDocumentListener ''selectionchange'' SelectionChangeListener]"
    and "set (rootListeners e) =
           insert (''input'', InputListener) (set (rootListeners0 h))
           \<union> {(''keydown'', HotKeyListener w) | w. w \<in> set (widgets e) \<and> kind (widgetHeap e w) = CodeCompleteWidget}"
    and "\<And>w. w \<in> set (widgets e) \<Longrightarrow> kind (widgetHeap e w) = CodeCompleteWidget \<Longrightarrow>
           RemoveRootListener ''keydown'' (HotKeyListener w) \<in> set (wdisposables (widgetHeap e w))"
proof -
  from create_shape[of lang ops h] assms obtain e1 where
    e: "e = fold widgetInit (widgets e1) e1"
    and f: "disposables e1 = [RemoveRootListener ''input'' InputListener,
                          RemoveDocumentListener ''selectionchange'' SelectionChangeListener]"
      "rootListeners e1 = addEventListener (''input'', InputListener) (rootListeners0 h)"
      "widgetHeap e1 = widgetHeap0 h"
    by auto
  have w: "widgets e = widgets e1" and k: "\<And>v. kind (widgetHeap e v) = kind (widgetHeap e1 v)"
    by (simp_all add: e fold_widgetInit_fields)
  show "disposables e = [RemoveRootListener ''input'' InputListener,
                          RemoveDocumentListener ''selectionchange'' SelectionChangeListener]"
    by (simp add: e fold_widgetInit_fields f)
  have "set (rootListeners e1) = insert (''input'', InputListener) (set (rootListeners0 h))"
    by (auto simp: f addEventListener_def)
  then show "set (rootListeners e) =
           insert (''input'', InputListener) (set (rootListeners0 h))
           \<union> {(''keydown'', HotKeyListener w) | w. w \<in> set (widgets e) \<and> kind (widgetHeap e w) = CodeCompleteWidget}"
    unfolding w k by (simp add: e fold_widgetInit_rootListeners)
  show "\<And>w. w \<in> set (widgets e) \<Longrightarrow> kind (widgetHeap e w) = CodeCompleteWidget \<Longrightarrow>
           RemoveRootListener ''keydown'' (HotKeyListener w) \<in> set (wdisposables (widgetHeap e w))"
    unfolding w k unfolding e by (rule fold_widgetInit_keydown_disposer)
qed

text \<open>
  The same for every created engine: \<^verbatim>\<open>dispose()\<close> removes the engine's own two
  listeners, and the key listener of every attached \<^verbatim>\<open>CodeCompleteWidget\<close> is still on the
  root element afterwards, until that widget's \<^verbatim>\<open>dispose()\<close> runs.
\<close>

lemma dispose_removes_engine_listeners_only:
  assumes "create lang ops h = Inr e"
  shows "(''input'', InputListener) \<notin> set (rootListeners (dispose e))
       \<and> (''selectionchange'', SelectionChangeListener) \<notin> set (documentListeners (dispose e))
       \<and> (\<forall>w \<in> set (widgets e). kind (widgetHeap e w) = CodeCompleteWidget \<longrightarrow>
             (''keydown'', HotKeyListener w) \<in> set (rootListeners (dispose e))
           \<and> (''keydown'', HotKeyListener w) \<notin> set (rootListeners (widgetDispose w (dispose e))))"
proof -
  note c = created_listeners[OF assms]
  have r: "rootListeners (dispose e) = removeEventListener (''input'', InputListener) (rootListeners e)"
    and d: "documentListeners (dispose e)
        = removeEventListener (''selectionchange'', SelectionChangeListener) (documentListeners e)"
    and hp: "widgetHeap (dispose e) = widgetHeap e"
    by (simp_all add: dispose_def disposeGroup_def c(1))
  have "(''input'', InputListener) \<notin> set (rootListeners (dispose e))"
    by (simp add: r removeEventListener_def)
  moreover have "(''selectionchange'', SelectionChangeListener) \<notin> set (documentListeners (dispose e))"
    by (simp add: d removeEventListener_def)
  moreover have "(''keydown'', HotKeyListener w) \<in> set (rootListeners (dispose e))
           \<and> (''keydown'', HotKeyListener w) \<notin> set (rootListeners (widgetDispose w (dispose e)))"
    if w: "w \<in> set (widgets e)" "kind (widgetHeap e w) = CodeCompleteWidget" for w
  proof
    have "(''keydown'', HotKeyListener w) \<in> set (rootListeners e)"
      using w by (auto simp: c(2))
    then show "(''keydown'', HotKeyListener w) \<in> set (rootListeners (dispose e))"
      by (simp add: r removeEventListener_def)
    have "RemoveRootListener ''keydown'' (HotKeyListener w) \<in> set (wdisposables (widgetHeap (dispose e) w))"
      using c(3)[OF w] by (simp add: hp)
    from fold_runDisposer_removes[OF this, of "dispose e"]
    show "(''keydown'', HotKeyListener w) \<notin> set (rootListeners (widgetDispose w (dispose e)))"
      by (simp add: widgetDispose_def disposeGroup_def Let_def)
  qed
  ultimately show ?thesis by blast
qed

section \<open>Replacing a range inside the text (C4)\<close>

text \<open>
  Claim C4. For every engine state with buffer \<open>text\<close> and every call
  \<^verbatim>\<open>replaceText(s, e, t)\<close> with \<open>0 \<le> s \<le> e \<le> length(text)\<close>, the call returns, the buffer
  is then \<open>text[:s] + t + text[e:]\<close>, and the recorded selection is the collapsed cursor at
  \<open>s + length(t)\<close>.
\<close>

theorem replaceText_in_range:
  assumes "0 \<le> s" "s \<le> en" "en \<le> int (length (source e))"
  shows "\<exists>e'. replaceText e s en t = Inr e'
           \<and> source e' = take (nat s) (source e) @ t @ drop (nat en) (source e)
           \<and> selection e' = Some \<lparr>selStart = s + int (length t), selEnd = s + int (length t)\<rparr>"
proof -
  have p: "slice (source e) 0 s = take (nat s) (source e)"
    using assms by (intro slice_prefix_in_range) auto
  have q: "sliceFrom (source e) en = drop (nat en) (source e)"
    using assms by (intro sliceFrom_in_range) auto
  from replaceText_full[of e s en t] obtain hl hs where
    "replaceText e s en t =
      Inr (e\<lparr>source := slice (source e) 0 s @ t @ sliceFrom (source e) en,
             tree := Some (parse (language e) (slice (source e) 0 s @ t @ sliceFrom (source e) en) None),
             codeArea := buildSegments (slice (source e) 0 s @ t @ sliceFrom (source e) en) hl,
             selection := Some \<lparr>selStart = s + int (length t), selEnd = s + int (length t)\<rparr>,
             hostSelection := hs,
             trace := trace e @ [Emit BeforeChange (beforeChange e), ParseFull,
                                 Emit AfterChange (afterChange e)]\<rparr>)"
    by blast
  then show ?thesis by (simp add: p q)
qed

theorem replaceText_in_range_witness:
  "(0::int) \<le> 1 \<and> (1::int) \<le> 2 \<and> 2 \<le> int (length (source sampleEngine))
   \<and> (\<exists>e'. replaceText sampleEngine 1 2 ''xyz'' = Inr e'
           \<and> source e' = ''axyz''
           \<and> selection e' = Some \<lparr>selStart = 4, selEnd = 4\<rparr>)"
proof -
  have h: "(0::int) \<le> 1" "(1::int) \<le> 2" "2 \<le> int (length (source sampleEngine))"
    by (simp_all add: sample_fields)
  from replaceText_in_range[OF h, of "''xyz''"] h show ?thesis
    by (simp add: sample_fields)
qed

section \<open>The node before an offset (C5, C6)\<close>

text \<open>
  Claim C5. For every syntax tree and every offset, \<^verbatim>\<open>findSyntaxNode\<close> returns the last
  node, in the order of the descent-first traversal, among the nodes that start strictly
  before the offset, and none when no node of the tree starts strictly before it; for the
  offset 0 it returns none. The search stops at the first node it meets that does not start
  before the offset; the first conjunct gives the result in that form, for every tree of
  the datatype. In a syntax tree, where children lie inside their parent in ascending
  order, the nodes met up to there are exactly the nodes of the tree that start before the
  offset, which is the second conjunct.
\<close>

theorem findSyntaxNode_last_before:
  "findSyntaxNode root index = lastOr None (takeWhile (startsBefore index) (preorder root))
   \<and> (wellFormed root \<longrightarrow>
        findSyntaxNode root index = lastOr None (filter (startsBefore index) (preorder root)))
   \<and> ((\<forall>n \<in> set (preorder root). \<not> startsBefore index n) \<longrightarrow> findSyntaxNode root index = None)
   \<and> findSyntaxNode root 0 = None"
proof -
  have a: "findSyntaxNode root index = lastOr None (takeWhile (startsBefore index) (preorder root))"
    by (rule findSyntaxNode_traversal)
  have b: "wellFormed root \<longrightarrow>
        findSyntaxNode root index = lastOr None (filter (startsBefore index) (preorder root))"
    using takeWhile_filter_sorted[OF wellFormed_sorted, of root index] a by simp
  have c: "(\<forall>n \<in> set (preorder root). \<not> startsBefore index n) \<longrightarrow> findSyntaxNode root index = None"
  proof
    assume "\<forall>n \<in> set (preorder root). \<not> startsBefore index n"
    then have "takeWhile (startsBefore index) (preorder root) = []"
      by (cases "preorder root") auto
    then show "findSyntaxNode root index = None" by (simp add: a lastOr_def)
  qed
  have "takeWhile (startsBefore 0) (preorder root) = []"
    by (cases "preorder root") (auto simp: startsBefore_def)
  then have d: "findSyntaxNode root 0 = None"
    by (simp add: findSyntaxNode_traversal lastOr_def)
  from a b c d show ?thesis by blast
qed

theorem findSyntaxNode_last_before_witness:
  "wellFormed sampleTree
   \<and> findSyntaxNode sampleTree 2 = Some (SNode 2 1 2 [])
   \<and> lastOr None (filter (startsBefore 2) (preorder sampleTree)) = Some (SNode 2 1 2 [])
   \<and> findSyntaxNode sampleTree 0 = None"
proof -
  have w: "wellFormed sampleTree" by (simp add: sampleTree_def)
  have f: "lastOr None (filter (startsBefore 2) (preorder sampleTree)) = Some (SNode 2 1 2 [])"
    by (simp add: sampleTree_def startsBefore_def lastOr_def)
  from findSyntaxNode_last_before[of sampleTree 2] w
  have "findSyntaxNode sampleTree 2 = lastOr None (filter (startsBefore 2) (preorder sampleTree))"
    by blast
  moreover from findSyntaxNode_last_before[of sampleTree 2]
  have "findSyntaxNode sampleTree 0 = None" by blast
  ultimately show ?thesis using w f by simp
qed

text \<open>
  Claim C6. For every syntax tree and offsets \<open>o1 < o2\<close> at which \<^verbatim>\<open>findSyntaxNode\<close> returns
  a node, the node returned for \<open>o1\<close> starts at or before the node returned for \<open>o2\<close>.
\<close>

theorem findSyntaxNode_monotone:
  assumes "wellFormed root" "o1 < o2"
    and "findSyntaxNode root o1 = Some n1" "findSyntaxNode root o2 = Some n2"
  shows "startIndex n1 \<le> startIndex n2"
proof -
  have "sorted (map startIndex (preorder root))"
    by (rule wellFormed_sorted[OF assms(1)])
  moreover have "o1 \<le> o2" using assms(2) by simp
  moreover have "lastOr None (takeWhile (startsBefore o1) (preorder root)) = Some n1"
    "lastOr None (takeWhile (startsBefore o2) (preorder root)) = Some n2"
    using assms(3,4) by (simp_all add: findSyntaxNode_traversal)
  ultimately show ?thesis by (rule lastOr_takeWhile_mono)
qed

lemma sample_lookup:
  "findSyntaxNode sampleTree 1 = Some (SNode 1 0 1 [])"
  "findSyntaxNode sampleTree 3 = Some (SNode 3 2 3 [])"
  by (simp_all add: findSyntaxNode_traversal sampleTree_def startsBefore_def lastOr_def)

theorem findSyntaxNode_monotone_witness:
  "wellFormed sampleTree \<and> (1::int) < 3
   \<and> findSyntaxNode sampleTree 1 = Some (SNode 1 0 1 [])
   \<and> findSyntaxNode sampleTree 3 = Some (SNode 3 2 3 [])
   \<and> startIndex (SNode 1 0 1 []) \<le> startIndex (SNode 3 2 3 [])"
proof -
  have w: "wellFormed sampleTree" by (simp add: sampleTree_def)
  have l: "(1::int) < 3" by simp
  from findSyntaxNode_monotone[OF w l sample_lookup] w sample_lookup show ?thesis by simp
qed

section \<open>Offsets and positions (C7, C8)\<close>




text \<open>
  Claim C8. For an offset that lies in no span of the code area, \<^verbatim>\<open>findNode\<close> returns no
  result. \<^verbatim>\<open>restoreSelection\<close> on a recorded selection with an end that does not map
  returns without an error and leaves the engine, the recorded selection included, as it
  was; and \<^verbatim>\<open>restoreSelection\<close> never raises and never changes the recorded selection.
\<close>

theorem stale_offset_is_skipped:
  "((\<forall>seg \<in> set (codeArea e).
        \<not> (offset seg \<le> i \<and> i \<le> offset seg + int (length (textContent seg))))
      \<longrightarrow> findNode e i = None)
   \<and> (selection e = Some s \<and> (findNode e (selStart s) = None \<or> findNode e (selEnd s) = None)
        \<longrightarrow> restoreSelection e = Inr e)
   \<and> (\<exists>e'. restoreSelection e = Inr e' \<and> selection e' = selection e)"
proof -
  have a: "(\<forall>seg \<in> set (codeArea e).
        \<not> (offset seg \<le> i \<and> i \<le> offset seg + int (length (textContent seg))))
      \<longrightarrow> findNode e i = None"
    by (simp add: findNode_def findNodeFrom_None)
  have b: "selection e = Some s \<and> (findNode e (selStart s) = None \<or> findNode e (selEnd s) = None)
        \<longrightarrow> restoreSelection e = Inr e"
  proof
    assume h: "selection e = Some s \<and> (findNode e (selStart s) = None \<or> findNode e (selEnd s) = None)"
    then have "selectionToRange e (selStart s) (selEnd s) = Inr None"
      by (intro selectionToRange_None) simp
    with h show "restoreSelection e = Inr e"
      by (simp add: restoreSelection_def andThen_def)
  qed
  from restoreSelection_total[of e] obtain hs where "restoreSelection e = Inr (e\<lparr>hostSelection := hs\<rparr>)"
    by blast
  then have c: "\<exists>e'. restoreSelection e = Inr e' \<and> selection e' = selection e" by simp
  from a b c show ?thesis by blast
qed

theorem stale_offset_is_skipped_witness:
  "findNode (sampleEngine\<lparr>selection := Some \<lparr>selStart = 1, selEnd = 5\<rparr>\<rparr>) 5 = None
   \<and> restoreSelection (sampleEngine\<lparr>selection := Some \<lparr>selStart = 1, selEnd = 5\<rparr>\<rparr>)
       = Inr (sampleEngine\<lparr>selection := Some \<lparr>selStart = 1, selEnd = 5\<rparr>\<rparr>)"
proof -
  let ?e = "sampleEngine\<lparr>selection := Some \<lparr>selStart = 1, selEnd = 5\<rparr>\<rparr>"
  have o: "\<forall>seg \<in> set (codeArea ?e).
        \<not> (offset seg \<le> 5 \<and> 5 \<le> offset seg + int (length (textContent seg)))"
    by (simp add: sample_fields)
  from stale_offset_is_skipped[of ?e 5 "\<lparr>selStart = 1, selEnd = 5\<rparr>"] o
  have n: "findNode ?e 5 = None" by blast
  have "selection ?e = Some \<lparr>selStart = 1, selEnd = 5\<rparr>
      \<and> (findNode ?e (selStart \<lparr>selStart = 1, selEnd = 5\<rparr>) = None
          \<or> findNode ?e (selEnd \<lparr>selStart = 1, selEnd = 5\<rparr>) = None)"
    using n by simp
  with stale_offset_is_skipped[of ?e 5 "\<lparr>selStart = 1, selEnd = 5\<rparr>"]
  have "restoreSelection ?e = Inr ?e" by blast
  with n show ?thesis by blast
qed

section \<open>Construction (C9)\<close>

text \<open>
  Claim C9. Construction always succeeds, and in it the first change cycle fires
  \<^verbatim>\<open>beforeChange\<close> and \<^verbatim>\<open>afterChange\<close>, with no handler subscribed, before the \<^verbatim>\<open>init\<close> of
  any widget; the widgets are initialised after it, each once, in the order given. The
  widgets that subscribe are then the handlers of \<^verbatim>\<open>afterChange\<close>, and every later change
  fires it with them.
\<close>

theorem construction_cycle_precedes_widgets:
  "\<exists>e. create lang ops h = Inr e
     \<and> widgets e = newSet (case opWidgets ops of None \<Rightarrow> [] | Some ws \<Rightarrow> ws)
     \<and> trace e = [Emit BeforeChange [], ParseFull, Emit AfterChange []] @ map WidgetInit (widgets e)
     \<and> beforeChange e = []
     \<and> afterChange e = filter (\<lambda>w. kind (widgetHeap0 h w) \<noteq> Widget) (widgets e)
     \<and> (\<forall>t. \<exists>e'. sourceChange e t None = Inr e'
            \<and> trace e' = trace e @ [Emit BeforeChange [], ParseFull, Emit AfterChange (afterChange e)])"
proof -
  from create_shape[of lang ops h] obtain e1 where
    c: "create lang ops h = Inr (fold widgetInit (widgets e1) e1)"
    and f: "widgets e1 = newSet (case opWidgets ops of None \<Rightarrow> [] | Some ws \<Rightarrow> ws)"
      "trace e1 = [Emit BeforeChange [], ParseFull, Emit AfterChange []]"
      "beforeChange e1 = []" "afterChange e1 = []" "widgetHeap e1 = widgetHeap0 h"
    by blast
  define e where "e = fold widgetInit (widgets e1) e1"
  have w: "widgets e = widgets e1" by (simp add: e_def fold_widgetInit_fields)
  have t: "trace e = [Emit BeforeChange [], ParseFull, Emit AfterChange []] @ map WidgetInit (widgets e)"
    by (simp add: w) (simp add: e_def fold_widgetInit_fields f)
  have b: "beforeChange e = []" by (simp add: e_def fold_widgetInit_fields f)
  have a: "afterChange e = filter (\<lambda>w. kind (widgetHeap0 h w) \<noteq> Widget) (widgets e)"
    by (simp add: w) (simp add: e_def fold_widgetInit_afterChange f)
  have s: "\<exists>e'. sourceChange e t None = Inr e'
            \<and> trace e' = trace e @ [Emit BeforeChange [], ParseFull, Emit AfterChange (afterChange e)]" for t
  proof -
    from sourceChange_full[of e t] obtain hl sl hs where
      "sourceChange e t None =
        Inr (e\<lparr>source := t, tree := Some (parse (language e) t None),
               codeArea := buildSegments t hl, selection := sl, hostSelection := hs,
               trace := trace e @ [Emit BeforeChange (beforeChange e), ParseFull,
                                   Emit AfterChange (afterChange e)]\<rparr>)"
      by blast
    then show ?thesis by (simp add: b)
  qed
  have c': "create lang ops h = Inr e" using c by (simp add: e_def)
  have w': "widgets e = newSet (case opWidgets ops of None \<Rightarrow> [] | Some ws \<Rightarrow> ws)"
    using w f(1) by simp
  from c' w' t b a s show ?thesis by blast
qed

theorem construction_cycle_precedes_widgets_witness:
  "\<exists>e. create sampleLanguage sampleOptions sampleHost = Inr e
     \<and> widgets e = [1, 2]
     \<and> trace e = [Emit BeforeChange [], ParseFull, Emit AfterChange [], WidgetInit 1, WidgetInit 2]
     \<and> afterChange e = [1, 2]"
proof -
  from construction_cycle_precedes_widgets[of sampleLanguage sampleOptions sampleHost]
  obtain e where e: "create sampleLanguage sampleOptions sampleHost = Inr e"
    "widgets e = newSet (case opWidgets sampleOptions of None \<Rightarrow> [] | Some ws \<Rightarrow> ws)"
    "trace e = [Emit BeforeChange [], ParseFull, Emit AfterChange []] @ map WidgetInit (widgets e)"
    "afterChange e = filter (\<lambda>w. kind (widgetHeap0 sampleHost w) \<noteq> Widget) (widgets e)"
    by blast
  have n: "newSet (case opWidgets sampleOptions of None \<Rightarrow> [] | Some ws \<Rightarrow> ws) = [1, 2]"
    by (simp add: sampleOptions_def newSet_def)
  have "widgets e = [1, 2]" using e(2) by (simp only: n)
  moreover from this have "trace e = [Emit BeforeChange [], ParseFull, Emit AfterChange [], WidgetInit 1, WidgetInit 2]"
    using e(3) by simp
  moreover from \<open>widgets e = [1, 2]\<close> have "afterChange e = [1, 2]"
    using e(4) by (simp add: sampleHost_def)
  ultimately show ?thesis using e(1) by blast
qed

section \<open>Replacing with any indices (C10)\<close>

text \<open>
  Claim C10. For every engine state, every text \<open>t\<close> and all integers \<open>start\<close> and \<open>end\<close>,
  inside the text or not, negative or not, and in either order, \<^verbatim>\<open>replaceText(start, end, t)\<close>
  returns; the buffer is then \<open>source.slice(0, start) + t + source.slice(end)\<close>, where
  \<open>slice\<close> counts a negative index from the end of the string and clamps every index into
  the string; and the recorded selection is the collapsed cursor at \<open>start + length(t)\<close>.
  The integers are those on which the code's addition of numbers is the integer sum:
  \<open>start\<close> and \<open>start + length(t)\<close> lie within \<open>\<plusminus>2^53\<close>. Nothing is asked of \<open>end\<close>.
\<close>

theorem replaceText_total:
  assumes "- (2 ^ 53) \<le> start" "start + int (length t) \<le> 2 ^ 53"
  shows "\<exists>e'. replaceText e start end' t = Inr e'
     \<and> source e' = slice (source e) 0 start @ t @ sliceFrom (source e) end'
     \<and> source e' = take (nat (if start < 0 then int (length (source e)) + start else start)) (source e)
                    @ t
                    @ drop (nat (if end' < 0 then int (length (source e)) + end' else end')) (source e)
     \<and> selection e' = Some \<lparr>selStart = start + int (length t), selEnd = start + int (length t)\<rparr>"
proof -
  from replaceText_full[of e start end' t] obtain hl hs where
    "replaceText e start end' t =
      Inr (e\<lparr>source := slice (source e) 0 start @ t @ sliceFrom (source e) end',
             tree := Some (parse (language e) (slice (source e) 0 start @ t @ sliceFrom (source e) end') None),
             codeArea := buildSegments (slice (source e) 0 start @ t @ sliceFrom (source e) end') hl,
             selection := Some \<lparr>selStart = start + int (length t), selEnd = start + int (length t)\<rparr>,
             hostSelection := hs,
             trace := trace e @ [Emit BeforeChange (beforeChange e), ParseFull,
                                 Emit AfterChange (afterChange e)]\<rparr>)"
    by blast
  then show ?thesis
    using slice_prefix_explicit[of "source e" start] sliceFrom_explicit[of "source e" end']
    by simp
qed

theorem replaceText_total_witness:
  "- (2 ^ 53) \<le> (7::int) \<and> 7 + int (length ''xyz'') \<le> 2 ^ 53
   \<and> (\<exists>e'. replaceText sampleEngine 7 (- 1) ''xyz'' = Inr e'
      \<and> source e' = ''abxyzb''
      \<and> selection e' = Some \<lparr>selStart = 10, selEnd = 10\<rparr>)"
proof -
  have h: "- (2 ^ 53) \<le> (7::int)" "7 + int (length ''xyz'') \<le> 2 ^ 53"
    by simp_all
  from replaceText_total[OF h, of sampleEngine "- 1"] h show ?thesis
    by (simp add: sample_fields slice_def sliceFrom_def relIndex_def)
qed

end
